theory Spec2Isabelle
  imports Main "HOL-Library.Sublist"
begin

section \<open>Data model (src/types/index.ts)\<close>

text \<open>
  A value caught by a \<^verbatim>\<open>catch\<close> block is either an \<^verbatim>\<open>Error\<close> instance carrying a
  message or some other thrown value; \<^verbatim>\<open>executeClaudeCode\<close> tells the two apart with
  \<^verbatim>\<open>error instanceof Error\<close>.
\<close>

datatype js_error = Error (message: string) | NonError

datatype status = Running | Completed | Failed

text \<open>\<^verbatim>\<open>interface ClaudeCodeSession\<close>; \<^verbatim>\<open>createdAt\<close> is the \<^verbatim>\<open>Date\<close> as milliseconds.\<close>

record ClaudeCodeSession =
  id' :: string
  containerId :: string
  threadId :: string
  channelId :: string
  userId :: string
  status :: status
  createdAt :: int

datatype file_type = File | Code

text \<open>An entry of \<^verbatim>\<open>getWorkspaceFiles\<close>, and an artifact: the same entry with its type.\<close>

record workspace_file =
  path :: string
  content :: string

record artifact = workspace_file +
  type' :: file_type

text \<open>\<^verbatim>\<open>interface ClaudeCodeResponse\<close>: every field but \<^verbatim>\<open>success\<close> is optional.\<close>

record ClaudeCodeResponse =
  success :: bool
  output' :: "string option"
  error :: "string option"
  artifacts :: "artifact list option"


section \<open>Artifact classification (ClaudeCodeService.isCodeFile, getFileType)\<close>

text \<open>\<^verbatim>\<open>String.prototype.endsWith\<close>: the last \<open>length ext\<close> characters are \<open>ext\<close>.\<close>

definition endsWith :: "string \<Rightarrow> string \<Rightarrow> bool" where
  "endsWith filePath ext =
     (length ext \<le> length filePath \<and> drop (length filePath - length ext) filePath = ext)"

definition codeExtensions :: "string list" where
  "codeExtensions =
     [''.ts'', ''.js'', ''.tsx'', ''.jsx'', ''.py'', ''.java'', ''.c'', ''.cpp'', ''.go'',
      ''.rs'', ''.rb'', ''.php'', ''.swift'', ''.kt'', ''.cs'', ''.html'', ''.css'', ''.scss'',
      ''.json'', ''.yaml'', ''.yml'', ''.toml'', ''.md'', ''.sh'', ''.bash'']"

definition isCodeFile :: "string \<Rightarrow> bool" where
  "isCodeFile filePath = list_ex (\<lambda>ext. endsWith filePath ext) codeExtensions"

definition getFileType :: "string \<Rightarrow> file_type" where
  "getFileType filePath = (if isCodeFile filePath then Code else File)"

text \<open>The \<^verbatim>\<open>files.map(...)\<close> of \<^verbatim>\<open>executeClaudeCode\<close> (lines 140-144).\<close>

definition toArtifact :: "workspace_file \<Rightarrow> artifact" where
  "toArtifact file = \<lparr>path = path file, content = content file, type' = getFileType (path file)\<rparr>"

definition toArtifacts :: "workspace_file list \<Rightarrow> artifact list" where
  "toArtifacts files = map toArtifact files"


section \<open>The world outside the process\<close>

text \<open>
  Every \<^verbatim>\<open>await\<close> of the services waits for Docker, the file system or Mattermost. The
  outcome of each such call is not decided by this program, so each operation takes an
  \<open>env\<close> that fixes, for the duration of the operation, how every external call it may
  issue settles: \<open>None\<close> or \<open>Inr\<close> for a resolved promise, \<open>Some e\<close> or \<open>Inl e\<close>
  for one rejected with \<open>e\<close>. The clock is read once per operation. The model covers the
  runs in which every awaited promise settles.
\<close>

text \<open>
  What \<^verbatim>\<open>fs.readdir(dir, {withFileTypes: true})\<close> and \<^verbatim>\<open>fs.readFile\<close> find below a
  workspace: an entry is a directory (listed, or failing to list) or anything else
  (read, or failing to read).
\<close>

datatype node =
    RegularFile string
  | UnreadableFile js_error
  | Directory "(string \<times> node) list"
  | UnreadableDirectory js_error

record env =
  fs_mkdir :: "string \<Rightarrow> js_error option"
  docker_createContainer :: "string \<Rightarrow> js_error + string"
  container_start :: "string \<Rightarrow> js_error option"
  container_stop :: "string \<Rightarrow> js_error option"
  container_remove :: "string \<Rightarrow> js_error option"
  container_exec :: "string \<Rightarrow> string list \<Rightarrow> js_error + (string \<times> string)"
  fs_workspace :: "string \<Rightarrow> js_error + (string \<times> node) list"
  mattermost_sendMessage :: "js_error option"
  Date_now :: int

text \<open>
  \<open>fs_mkdir\<close> and \<open>fs_workspace\<close> are keyed by the session id: the directory is always
  \<^verbatim>\<open>path.join(config.docker.workspaceVolume, sessionId)\<close>. \<open>docker_createContainer\<close> is
  keyed by the container name and returns \<^verbatim>\<open>container.id\<close>; the other Docker calls are
  keyed by the container id. \<^verbatim>\<open>MattermostService.addReaction\<close> catches its own errors
  and never rejects, so it needs no entry.
\<close>

text \<open>The calls issued to Docker and to the file system, in the order of issue.\<close>

datatype call =
    Mkdir string
  | CreateContainer string
  | Start string
  | Stop string
  | Remove string
  | Exec string "string list"


section \<open>State of DockerService\<close>

text \<open>
  \<^verbatim>\<open>this.sessions\<close> is a JavaScript \<^verbatim>\<open>Map\<close> from session id to a session object. The
  objects are shared by reference (\<^verbatim>\<open>stopSession\<close> assigns \<^verbatim>\<open>session.status\<close> on an
  object that callers may still hold), so the state keeps the objects in a store \<open>objs\<close>,
  addressed by their index, and the map holds addresses. A \<^verbatim>\<open>Map\<close> iterates in insertion
  order, so it is an association list.
\<close>

record state =
  objs :: "ClaudeCodeSession list"
  sessions :: "(string \<times> nat) list"
  calls :: "call list"

definition init :: state where
  "init = \<lparr>objs = [], sessions = [], calls = []\<rparr>"

definition Map_get :: "(string \<times> nat) list \<Rightarrow> string \<Rightarrow> nat option" where
  "Map_get m k = map_of m k"

text \<open>\<^verbatim>\<open>Map.prototype.set\<close>: an existing key keeps its place, a new key goes last.\<close>

fun Map_set :: "(string \<times> nat) list \<Rightarrow> string \<Rightarrow> nat \<Rightarrow> (string \<times> nat) list" where
  "Map_set [] k v = [(k, v)]"
| "Map_set ((k', v') # m) k v = (if k' = k then (k, v) # m else (k', v') # Map_set m k v)"

definition Map_delete :: "(string \<times> nat) list \<Rightarrow> string \<Rightarrow> (string \<times> nat) list" where
  "Map_delete m k = filter (\<lambda>(k', v'). k' \<noteq> k) m"

definition issue :: "call \<Rightarrow> state \<Rightarrow> state" where
  "issue c s = s\<lparr>calls := calls s @ [c]\<rparr>"


section \<open>DockerService\<close>

text \<open>
  \<^verbatim>\<open>createSession\<close> (lines 30-85). The \<^verbatim>\<open>catch\<close> block logs and rethrows, so a
  rejected call leaves the state as it was when the call was rejected. The session is
  stored (line 71) before the container is started (line 74).
\<close>

definition newSession :: "string \<Rightarrow> string \<Rightarrow> string \<Rightarrow> string \<Rightarrow> int \<Rightarrow> ClaudeCodeSession" where
  "newSession tid cid chan usr t =
     \<lparr>id' = tid, containerId = cid, threadId = tid, channelId = chan, userId = usr,
      status = Running, createdAt = t\<rparr>"

definition storeSession :: "ClaudeCodeSession \<Rightarrow> state \<Rightarrow> state" where
  "storeSession session s =
     s\<lparr>objs := objs s @ [session], sessions := Map_set (sessions s) (id' session) (length (objs s))\<rparr>"

definition createSession ::
  "state \<Rightarrow> env \<Rightarrow> string \<Rightarrow> string \<Rightarrow> string \<Rightarrow> (js_error + nat) \<times> state" where
  "createSession s e tid chan usr =
     (let sessionId = tid;
          s1 = issue (Mkdir sessionId) s
      in case fs_mkdir e sessionId of
           Some err \<Rightarrow> (Inl err, s1)
         | None \<Rightarrow>
             (let s2 = issue (CreateContainer sessionId) s1
              in case docker_createContainer e sessionId of
                   Inl err \<Rightarrow> (Inl err, s2)
                 | Inr cid \<Rightarrow>
                     (let session = newSession tid cid chan usr (Date_now e);
                          s3 = issue (Start cid) (storeSession session s2)
                      in case container_start e cid of
                           Some err \<Rightarrow> (Inl err, s3)
                         | None \<Rightarrow> (Inr (length (objs s2)), s3))))"

text \<open>
  \<^verbatim>\<open>executeCommand\<close> (lines 90-145): the session is looked up by its id. Creating the
  exec, starting it and reading its stream to the end are one outcome: rejected, or the
  two strings \<^verbatim>\<open>stdout\<close> and \<^verbatim>\<open>stderr\<close> and nothing else.
\<close>

definition executeCommand ::
  "state \<Rightarrow> env \<Rightarrow> string \<Rightarrow> string list \<Rightarrow> (js_error + (string \<times> string)) \<times> state" where
  "executeCommand s e sessionId command =
     (case Map_get (sessions s) sessionId of
        None \<Rightarrow> (Inl (Error (''Session not found: '' @ sessionId)), s)
      | Some r \<Rightarrow>
          (let cid = containerId (objs s ! r)
           in (container_exec e cid command, issue (Exec cid command) s)))"

text \<open>
  \<^verbatim>\<open>stopSession\<close> (lines 174-199): an unknown id is a warning and a normal return; the
  status is assigned and the entry deleted only after both \<^verbatim>\<open>stop\<close> and \<^verbatim>\<open>remove\<close>
  resolved.
\<close>

definition stopSession :: "state \<Rightarrow> env \<Rightarrow> string \<Rightarrow> (js_error + unit) \<times> state" where
  "stopSession s e sessionId =
     (case Map_get (sessions s) sessionId of
        None \<Rightarrow> (Inr (), s)
      | Some r \<Rightarrow>
          (let cid = containerId (objs s ! r);
               s1 = issue (Stop cid) s
           in case container_stop e cid of
                Some err \<Rightarrow> (Inl err, s1)
              | None \<Rightarrow>
                  (let s2 = issue (Remove cid) s1
                   in case container_remove e cid of
                        Some err \<Rightarrow> (Inl err, s2)
                      | None \<Rightarrow>
                          (Inr (),
                           s2\<lparr>objs := (objs s2)[r := (objs s2 ! r)\<lparr>status := Completed\<rparr>],
                              sessions := Map_delete (sessions s2) sessionId\<rparr>))))"


text \<open>
  \<^verbatim>\<open>getWorkspaceFiles\<close> (lines 204-233). \<^verbatim>\<open>readDir\<close> pushes onto the one array
  \<^verbatim>\<open>files\<close>; a rejected \<^verbatim>\<open>readdir\<close> or \<^verbatim>\<open>readFile\<close> rejects the whole call.
  Entry names hold no separator, so \<^verbatim>\<open>path.join(baseDir, entry.name)\<close> is the name
  itself at the top and \<^verbatim>\<open>baseDir/name\<close> below.
\<close>

definition path_join :: "string \<Rightarrow> string \<Rightarrow> string" where
  "path_join baseDir name = (if baseDir = [] then name else baseDir @ ''/'' @ name)"

fun readDir ::
  "(string \<times> node) list \<Rightarrow> string \<Rightarrow> workspace_file list \<Rightarrow> js_error + workspace_file list" where
  "readDir [] baseDir files = Inr files"
| "readDir ((name, Directory sub) # entries) baseDir files =
     (case readDir sub (path_join baseDir name) files of
        Inl err \<Rightarrow> Inl err
      | Inr files' \<Rightarrow> readDir entries baseDir files')"
| "readDir ((name, UnreadableDirectory err) # entries) baseDir files = Inl err"
| "readDir ((name, RegularFile c) # entries) baseDir files =
     readDir entries baseDir (files @ [\<lparr>path = path_join baseDir name, content = c\<rparr>])"
| "readDir ((name, UnreadableFile err) # entries) baseDir files = Inl err"

definition getWorkspaceFiles :: "env \<Rightarrow> string \<Rightarrow> js_error + workspace_file list" where
  "getWorkspaceFiles e sessionId =
     (case fs_workspace e sessionId of
        Inl err \<Rightarrow> Inl err
      | Inr entries \<Rightarrow> readDir entries [] [])"

text \<open>
  \<^verbatim>\<open>cleanupOldSessions\<close> (lines 238-249). The loop walks the entries of the map in
  insertion order; an iteration deletes at most the entry it is visiting, so the walk is
  over the entries as they were when the loop began. \<^verbatim>\<open>stopSession\<close> is awaited with no
  \<^verbatim>\<open>try\<close> around it: its rejection ends the loop and rejects the sweep.
\<close>

fun cleanupLoop ::
  "env \<Rightarrow> int \<Rightarrow> int \<Rightarrow> (string \<times> nat) list \<Rightarrow> state \<Rightarrow> (js_error + unit) \<times> state" where
  "cleanupLoop e now maxAge [] s = (Inr (), s)"
| "cleanupLoop e now maxAge ((sessionId, r) # entries) s =
     (let age = now - createdAt (objs s ! r)
      in if age > maxAge
         then (case stopSession s e sessionId of
                 (Inl err, s') \<Rightarrow> (Inl err, s')
               | (Inr u, s') \<Rightarrow> cleanupLoop e now maxAge entries s')
         else cleanupLoop e now maxAge entries s)"

definition cleanupOldSessions :: "state \<Rightarrow> env \<Rightarrow> int \<Rightarrow> (js_error + unit) \<times> state" where
  "cleanupOldSessions s e maxAgeHours =
     (let now = Date_now e;
          maxAge = maxAgeHours * 60 * 60 * 1000
      in cleanupLoop e now maxAge (sessions s) s)"

text \<open>\<^verbatim>\<open>getSessionByThread\<close> (lines 254-258): the first stored session of the thread.\<close>

definition getSessionByThread :: "state \<Rightarrow> string \<Rightarrow> nat option" where
  "getSessionByThread s tid = find (\<lambda>r. threadId (objs s ! r) = tid) (map snd (sessions s))"

definition listSessions :: "state \<Rightarrow> nat list" where
  "listSessions s = map snd (sessions s)"


section \<open>ClaudeCodeService\<close>

text \<open>Decimal digits of \<^verbatim>\<open>Date.now()\<close> in the template string of line 114.\<close>

fun decimal :: "nat \<Rightarrow> string" where
  "decimal n =
     (if n < 10 then [char_of (48 + n)]
      else decimal (n div 10) @ [char_of (48 + n mod 10)])"

definition toString :: "int \<Rightarrow> string" where
  "toString i = (if i < 0 then ''-'' @ decimal (nat (- i)) else decimal (nat i))"

text \<open>\<^verbatim>\<open>userMessage.replace(/"/g, '\\"')\<close>: each double quote becomes backslash, double quote.\<close>

definition replaceQuotes :: "string \<Rightarrow> string" where
  "replaceQuotes userMessage =
     concat (map (\<lambda>c. if c = CHR 0x22 then [CHR 0x5C, CHR 0x22] else [c]) userMessage)"

definition messageFile :: "int \<Rightarrow> string" where
  "messageFile t = ''/workspace/user_message_'' @ toString t @ ''.txt''"

definition seedCommand :: "string \<Rightarrow> string \<Rightarrow> string list" where
  "seedCommand userMessage file =
     [''sh'', ''-c'',
      ''echo '' @ [CHR 0x22] @ replaceQuotes userMessage @ [CHR 0x22] @ '' > '' @ file]"

definition toolCommand :: "string \<Rightarrow> string list" where
  "toolCommand userMessage =
     [''ccr'', ''code'', ''--allowedTools'', ''Bash,Read'', ''--permission-mode'',
      ''acceptEdits'', ''-p'', userMessage]"

text \<open>The \<^verbatim>\<open>catch\<close> block of \<^verbatim>\<open>executeClaudeCode\<close> (lines 146-152).\<close>

definition caught :: "js_error \<Rightarrow> ClaudeCodeResponse" where
  "caught err =
     \<lparr>success = False, output' = None,
      error = Some (case err of Error m \<Rightarrow> m | NonError \<Rightarrow> ''Unknown error''),
      artifacts = None\<rparr>"

text \<open>
  \<^verbatim>\<open>executeClaudeCode\<close> (lines 108-153). \<^verbatim>\<open>!result.stderr\<close> is true exactly for the
  empty string, and \<^verbatim>\<open>result.stderr || undefined\<close> is absent exactly then.
\<close>

definition executeClaudeCode ::
  "state \<Rightarrow> env \<Rightarrow> string \<Rightarrow> string \<Rightarrow> ClaudeCodeResponse \<times> state" where
  "executeClaudeCode s e sessionId userMessage =
     (case executeCommand s e sessionId (seedCommand userMessage (messageFile (Date_now e))) of
        (Inl err, s1) \<Rightarrow> (caught err, s1)
      | (Inr seeded, s1) \<Rightarrow>
          (case executeCommand s1 e sessionId (toolCommand userMessage) of
             (Inl err, s2) \<Rightarrow> (caught err, s2)
           | (Inr (stdout, stderr), s2) \<Rightarrow>
               (case getWorkspaceFiles e sessionId of
                  Inl err \<Rightarrow> (caught err, s2)
                | Inr files \<Rightarrow>
                    (\<lparr>success = (stderr = []), output' = Some stdout,
                      error = (if stderr = [] then None else Some stderr),
                      artifacts = Some (toArtifacts files)\<rparr>, s2))))"

text \<open>
  \<^verbatim>\<open>processMessage\<close>, lines 36-51: look the thread's session up and create one when
  there is none. The \<^verbatim>\<open>sendMessage\<close> of line 46 may reject; the reaction of line 40
  cannot.
\<close>

definition createOrAttach ::
  "state \<Rightarrow> env \<Rightarrow> string \<Rightarrow> string \<Rightarrow> string \<Rightarrow> (js_error + nat) \<times> state" where
  "createOrAttach s e chan tid usr =
     (case getSessionByThread s tid of
        Some r \<Rightarrow> (Inr r, s)
      | None \<Rightarrow>
          (case createSession s e tid chan usr of
             (Inl err, s') \<Rightarrow> (Inl err, s')
           | (Inr r, s') \<Rightarrow>
               (case mattermost_sendMessage e of
                  Some err \<Rightarrow> (Inl err, s')
                | None \<Rightarrow> (Inr r, s'))))"

text \<open>
  \<^verbatim>\<open>processMessage\<close>, lines 26-57: up to the response of \<^verbatim>\<open>executeClaudeCode\<close>. The
  statements after it, and the \<^verbatim>\<open>catch\<close> block, only talk to Mattermost.
\<close>

definition processMessage ::
  "state \<Rightarrow> env \<Rightarrow> string \<Rightarrow> string \<Rightarrow> string \<Rightarrow> string \<Rightarrow> (js_error + ClaudeCodeResponse) \<times> state" where
  "processMessage s e chan tid usr msg =
     (case createOrAttach s e chan tid usr of
        (Inl err, s') \<Rightarrow> (Inl err, s')
      | (Inr r, s') \<Rightarrow>
          (case executeClaudeCode s' e (id' (objs s' ! r)) msg of
             (response, s'') \<Rightarrow> (Inr response, s'')))"

text \<open>\<^verbatim>\<open>ClaudeCodeService.stopSession\<close> (lines 325-331), by thread.\<close>

definition stopSessionByThread :: "state \<Rightarrow> env \<Rightarrow> string \<Rightarrow> (js_error + unit) \<times> state" where
  "stopSessionByThread s e tid =
     (case getSessionByThread s tid of
        None \<Rightarrow> (Inr (), s)
      | Some r \<Rightarrow> stopSession s e (id' (objs s ! r)))"


section \<open>Sequences of operations\<close>

text \<open>
  An operation of the two services, with the world it runs in. A sequence of
  operations, each run to its end before the next begins, gives the reachable states.
\<close>

datatype op =
    CreateSession env string string string
  | StopSession env string
  | CleanupOldSessions env int
  | ProcessMessage env string string string string
  | StopSessionByThread env string

fun apply_op :: "state \<Rightarrow> op \<Rightarrow> state" where
  "apply_op s (CreateSession e tid chan usr) = snd (createSession s e tid chan usr)"
| "apply_op s (StopSession e sessionId) = snd (stopSession s e sessionId)"
| "apply_op s (CleanupOldSessions e maxAgeHours) = snd (cleanupOldSessions s e maxAgeHours)"
| "apply_op s (ProcessMessage e chan tid usr msg) = snd (processMessage s e chan tid usr msg)"
| "apply_op s (StopSessionByThread e tid) = snd (stopSessionByThread s e tid)"

definition run :: "op list \<Rightarrow> state" where
  "run ops = foldl apply_op init ops"

text \<open>
  The registry is well formed: keys are distinct (it is a \<^verbatim>\<open>Map\<close>), every address is
  allocated, and every stored session carries its key as \<^verbatim>\<open>id\<close> and as \<^verbatim>\<open>threadId\<close>
  and is \<^verbatim>\<open>running\<close>.
\<close>

definition registry_inv :: "state \<Rightarrow> bool" where
  "registry_inv s \<longleftrightarrow>
     distinct (map fst (sessions s)) \<and>
     (\<forall>(k, r) \<in> set (sessions s).
        r < length (objs s) \<and> id' (objs s ! r) = k \<and> threadId (objs s ! r) = k \<and>
        status (objs s ! r) = Running)"

text \<open>The test of line 244, on the session at address \<open>r\<close>.\<close>

definition tooOld :: "int \<Rightarrow> int \<Rightarrow> state \<Rightarrow> nat \<Rightarrow> bool" where
  "tooOld now maxAge s r \<longleftrightarrow> now - createdAt (objs s ! r) > maxAge"

definition expired :: "env \<Rightarrow> int \<Rightarrow> state \<Rightarrow> nat \<Rightarrow> bool" where
  "expired e maxAgeHours s r \<longleftrightarrow> tooOld (Date_now e) (maxAgeHours * 60 * 60 * 1000) s r"

definition teardownCalls :: "state \<Rightarrow> nat \<Rightarrow> call list" where
  "teardownCalls s r = [Stop (containerId (objs s ! r)), Remove (containerId (objs s ! r))]"


text \<open>The state after lines 182-194 of \<^verbatim>\<open>stopSession\<close> ran to their end.\<close>

definition stopped :: "state \<Rightarrow> string \<Rightarrow> nat \<Rightarrow> state" where
  "stopped s k r =
     \<lparr>objs = (objs s)[r := (objs s ! r)\<lparr>status := Completed\<rparr>],
      sessions = Map_delete (sessions s) k,
      calls = calls s @ teardownCalls s r\<rparr>"

text \<open>
  Between two states, the store keeps its size and each object is the same or has
  become \<^verbatim>\<open>completed\<close>; an entry is untouched when it is still stored and its object is
  the same; no object is \<^verbatim>\<open>failed\<close>.
\<close>

definition evolves :: "state \<Rightarrow> state \<Rightarrow> bool" where
  "evolves s s' \<longleftrightarrow>
     length (objs s') = length (objs s) \<and>
     (\<forall>i. objs s' ! i = objs s ! i \<or> objs s' ! i = (objs s ! i)\<lparr>status := Completed\<rparr>)"

definition untouched :: "state \<Rightarrow> state \<Rightarrow> string \<times> nat \<Rightarrow> bool" where
  "untouched s s' p \<longleftrightarrow> p \<in> set (sessions s') \<and> objs s' ! snd p = objs s ! snd p"

definition never_failed :: "state \<Rightarrow> bool" where
  "never_failed s \<longleftrightarrow> (\<forall>i < length (objs s). status (objs s ! i) \<noteq> Failed)"


section \<open>Overlapping calls of processMessage\<close>

text \<open>
  Node runs one piece of JavaScript at a time, and a call of an \<^verbatim>\<open>async\<close> function gives
  way to the others exactly at its \<^verbatim>\<open>await\<close>s. A call of \<^verbatim>\<open>processMessage\<close> is thus a
  task that moves through the \<^verbatim>\<open>await\<close>s of lines 36-51 and of \<^verbatim>\<open>createSession\<close>; one
  step runs the code between two of them, and a schedule says which task steps next and
  how the call it was waiting for has settled.
\<close>

record task =
  t_channelId :: string
  t_threadId :: string
  t_userId :: string

datatype phase =
    Called
  | AwaitReaction
  | AwaitMkdir
  | AwaitCreateContainer
  | AwaitStart nat
  | AwaitSendMessage nat
  | Attached nat
  | Rejected js_error

fun step :: "env \<Rightarrow> task \<Rightarrow> phase \<Rightarrow> state \<Rightarrow> phase \<times> state" where
  "step e t Called s =
     (case getSessionByThread s (t_threadId t) of
        Some r \<Rightarrow> (Attached r, s)
      | None \<Rightarrow> (AwaitReaction, s))"
| "step e t AwaitReaction s = (AwaitMkdir, issue (Mkdir (t_threadId t)) s)"
| "step e t AwaitMkdir s =
     (case fs_mkdir e (t_threadId t) of
        Some err \<Rightarrow> (Rejected err, s)
      | None \<Rightarrow> (AwaitCreateContainer, issue (CreateContainer (t_threadId t)) s))"
| "step e t AwaitCreateContainer s =
     (case docker_createContainer e (t_threadId t) of
        Inl err \<Rightarrow> (Rejected err, s)
      | Inr cid \<Rightarrow>
          (let session = newSession (t_threadId t) cid (t_channelId t) (t_userId t) (Date_now e)
           in (AwaitStart (length (objs s)), issue (Start cid) (storeSession session s))))"
| "step e t (AwaitStart r) s =
     (case container_start e (containerId (objs s ! r)) of
        Some err \<Rightarrow> (Rejected err, s)
      | None \<Rightarrow> (AwaitSendMessage r, s))"
| "step e t (AwaitSendMessage r) s =
     (case mattermost_sendMessage e of
        Some err \<Rightarrow> (Rejected err, s)
      | None \<Rightarrow> (Attached r, s))"
| "step e t (Attached r) s = (Attached r, s)"
| "step e t (Rejected err) s = (Rejected err, s)"

record machine =
  shared :: state
  phases :: "phase list"

definition start :: "state \<Rightarrow> task list \<Rightarrow> machine" where
  "start s tasks = \<lparr>shared = s, phases = map (\<lambda>t. Called) tasks\<rparr>"

definition step_task :: "task list \<Rightarrow> machine \<Rightarrow> nat \<times> env \<Rightarrow> machine" where
  "step_task tasks m ie =
     (case ie of (i, e) \<Rightarrow>
        if i < length (phases m) \<and> i < length tasks
        then (case step e (tasks ! i) (phases m ! i) (shared m) of
                (ph, s') \<Rightarrow> \<lparr>shared = s', phases = (phases m)[i := ph]\<rparr>)
        else m)"

definition run_schedule :: "task list \<Rightarrow> (nat \<times> env) list \<Rightarrow> machine \<Rightarrow> machine" where
  "run_schedule tasks schedule m = foldl (step_task tasks) m schedule"

text \<open>How often \<^verbatim>\<open>createSession\<close> was entered, and how often Docker was asked to create.\<close>

definition createSession_invocations :: "string \<Rightarrow> state \<Rightarrow> nat" where
  "createSession_invocations tid s = count_list (calls s) (Mkdir tid)"

definition container_creations :: "string \<Rightarrow> state \<Rightarrow> nat" where
  "container_creations tid s = count_list (calls s) (CreateContainer tid)"

text \<open>What the caller of task \<open>i\<close> holds at the end: the container id of its session.\<close>

definition observed :: "machine \<Rightarrow> nat \<Rightarrow> string option" where
  "observed m i =
     (case phases m ! i of
        Attached r \<Rightarrow> Some (containerId (objs (shared m) ! r))
      | _ \<Rightarrow> None)"

text \<open>\<open>n\<close> calls of lines 36-51 for one thread, one after the other.\<close>

fun createOrAttach_seq ::
  "state \<Rightarrow> env list \<Rightarrow> string \<Rightarrow> string \<Rightarrow> string \<Rightarrow> (js_error + nat) list \<times> state" where
  "createOrAttach_seq s [] chan tid usr = ([], s)"
| "createOrAttach_seq s (e # es) chan tid usr =
     (case createOrAttach s e chan tid usr of
        (res, s') \<Rightarrow>
          (case createOrAttach_seq s' es chan tid usr of
             (ress, s'') \<Rightarrow> (res # ress, s'')))"


section \<open>Example worlds and states\<close>

text \<open>A world in which every call succeeds, and states reached in it.\<close>

definition env_ok :: env where
  "env_ok =
     \<lparr>fs_mkdir = (\<lambda>sessionId. None),
      docker_createContainer = (\<lambda>name. Inr (''c-'' @ name)),
      container_start = (\<lambda>cid. None),
      container_stop = (\<lambda>cid. None),
      container_remove = (\<lambda>cid. None),
      container_exec = (\<lambda>cid argv. Inr (''done'', [])),
      fs_workspace = (\<lambda>sessionId. Inr []),
      mattermost_sendMessage = None,
      Date_now = 1000\<rparr>"

definition one_session :: state where
  "one_session = run [CreateSession env_ok ''t1'' ''ch'' ''u'']"

definition two_sessions :: state where
  "two_sessions =
     run [CreateSession env_ok ''t1'' ''ch'' ''u'',
          CreateSession (env_ok\<lparr>Date_now := 3000000\<rparr>) ''t2'' ''ch'' ''u'']"


section \<open>Example worlds for the sweep\<close>

text \<open>
  One hour and forty seconds after the first session of \<open>two_sessions\<close> was created,
  ten minutes and forty seconds after the second.
\<close>

definition env_later :: env where
  "env_later = env_ok\<lparr>Date_now := 3641000\<rparr>"


text \<open>More than a day after both sessions of \<open>two_sessions\<close>; the first container refuses to stop.\<close>

definition env_stop_fails :: env where
  "env_stop_fails =
     env_ok\<lparr>Date_now := 90000000,
            container_stop := (\<lambda>cid. if cid = ''c-t1'' then Some (Error ''stop failed'') else None)\<rparr>"

text \<open>The container is created but does not start.\<close>

definition env_start_fails :: env where
  "env_start_fails = env_ok\<lparr>container_start := (\<lambda>cid. Some (Error ''start failed''))\<rparr>"

text \<open>Docker refuses to create the container.\<close>

definition env_create_fails :: env where
  "env_create_fails = env_ok\<lparr>docker_createContainer := (\<lambda>name. Inl (Error ''no such image''))\<rparr>"

text \<open>Every exec is rejected.\<close>

definition env_exec_fails :: env where
  "env_exec_fails = env_ok\<lparr>container_exec := (\<lambda>cid argv. Inl (Error ''container not running''))\<rparr>"


text \<open>The tool writes to both streams.\<close>

definition env_stderr :: env where
  "env_stderr = env_ok\<lparr>container_exec := (\<lambda>cid argv. Inr (''partial'', ''warning''))\<rparr>"

text \<open>The workspace cannot be listed.\<close>

definition env_read_fails :: env where
  "env_read_fails = env_ok\<lparr>fs_workspace := (\<lambda>sessionId. Inl (Error ''EACCES''))\<rparr>"

text \<open>The tool writes to both streams, and the workspace cannot be listed.\<close>

definition env_stderr_read_fails :: env where
  "env_stderr_read_fails = env_stderr\<lparr>fs_workspace := (\<lambda>sessionId. Inl (Error ''EACCES''))\<rparr>"


text \<open>Two calls of \<open>processMessage\<close> for the thread \<open>t1\<close>, from two users.\<close>

definition two_callers :: "task list" where
  "two_callers =
     [\<lparr>t_channelId = ''ch'', t_threadId = ''t1'', t_userId = ''alice''\<rparr>,
      \<lparr>t_channelId = ''ch'', t_threadId = ''t1'', t_userId = ''bob''\<rparr>]"

text \<open>Docker refuses a second container of the same name.\<close>

definition env_conflict :: env where
  "env_conflict = env_ok\<lparr>docker_createContainer := (\<lambda>name. Inl (Error ''Conflict: name in use''))\<rparr>"

text \<open>Docker accepts it and gives it an id of its own.\<close>

definition env_second :: env where
  "env_second = env_ok\<lparr>docker_createContainer := (\<lambda>name. Inr (''c2-'' @ name))\<rparr>"

text \<open>
  Both calls look the thread up before either has stored a session; then the first
  runs to its end, then the second.
\<close>

definition race :: "env \<Rightarrow> (nat \<times> env) list" where
  "race e =
     [(0, env_ok), (1, env_ok),
      (0, env_ok), (0, env_ok), (0, env_ok), (0, env_ok), (0, env_ok),
      (1, env_ok), (1, env_ok), (1, e), (1, e), (1, e)]"

text \<open>One task alone: its six steps in a row, in one world.\<close>

definition alone :: "env \<Rightarrow> (nat \<times> env) list" where
  "alone e = [(0, e), (0, e), (0, e), (0, e), (0, e), (0, e)]"


section \<open>Properties of the classification\<close>




section \<open>Basic facts about the state\<close>

lemma issue_fields [simp]:
  "objs (issue c s) = objs s"
  "sessions (issue c s) = sessions s"
  "calls (issue c s) = calls s @ [c]"
  by (simp_all add: issue_def)

lemma executeCommand_registered:
  "Map_get (sessions s) sessionId = Some r \<Longrightarrow>
   executeCommand s e sessionId command =
     (container_exec e (containerId (objs s ! r)) command,
      issue (Exec (containerId (objs s ! r)) command) s)"
  by (simp add: executeCommand_def Let_def)


section \<open>The registry as a map\<close>

lemma Map_set_cases:
  "(k', v') \<in> set (Map_set m k v) \<Longrightarrow> (k' = k \<and> v' = v) \<or> (k', v') \<in> set m"
  by (induction m) (auto split: if_splits)

lemma Map_set_keys: "fst ` set (Map_set m k v) = insert k (fst ` set m)"
proof (induction m)
  case Nil
  show ?case by simp
next
  case (Cons p m)
  obtain k' v' where p: "p = (k', v')" by (cases p)
  show ?case
  proof (cases "k' = k")
    case True
    with p show ?thesis by simp
  next
    case False
    with p Cons show ?thesis by (simp add: insert_commute)
  qed
qed

lemma Map_set_distinct: "distinct (map fst m) \<Longrightarrow> distinct (map fst (Map_set m k v))"
  by (induction m) (auto simp: Map_set_keys)

lemma Map_set_fresh: "k \<notin> fst ` set m \<Longrightarrow> Map_set m k v = m @ [(k, v)]"
  by (induction m) auto

lemma Map_delete_set: "set (Map_delete m k) = {p \<in> set m. fst p \<noteq> k}"
  by (auto simp: Map_delete_def)

lemma Map_delete_distinct: "distinct (map fst m) \<Longrightarrow> distinct (map fst (Map_delete m k))"
  by (simp add: Map_delete_def distinct_map_filter)

lemma Map_delete_absent: "k \<notin> fst ` set m \<Longrightarrow> Map_delete m k = m"
  by (induction m) (auto simp: Map_delete_def)

lemma Map_delete_middle:
  "distinct (map fst (pre @ (k, r) # es)) \<Longrightarrow> Map_delete (pre @ (k, r) # es) k = pre @ es"
  using Map_delete_absent [of k pre] Map_delete_absent [of k es]
  by (simp add: Map_delete_def)

lemma Map_get_member: "distinct (map fst m) \<Longrightarrow> (k, r) \<in> set m \<Longrightarrow> Map_get m k = Some r"
  by (simp add: Map_get_def)

lemma Map_get_SomeD: "Map_get m k = Some r \<Longrightarrow> (k, r) \<in> set m"
  by (simp add: Map_get_def map_of_SomeD)

lemma registry_inv_init: "registry_inv init"
  by (simp add: registry_inv_def init_def)

lemma registry_inv_issue [simp]: "registry_inv (issue c s) = registry_inv s"
  by (simp add: registry_inv_def)

lemma registry_inv_storeSession:
  assumes "registry_inv s" and "id' session = threadId session" and "status session = Running"
  shows "registry_inv (storeSession session s)"
  unfolding registry_inv_def storeSession_def
proof (intro conjI ballI)
  show "distinct (map fst (sessions (s\<lparr>objs := objs s @ [session],
          sessions := Map_set (sessions s) (id' session) (length (objs s))\<rparr>)))"
    using assms(1) by (simp add: registry_inv_def Map_set_distinct)
next
  fix p
  assume "p \<in> set (sessions (s\<lparr>objs := objs s @ [session],
          sessions := Map_set (sessions s) (id' session) (length (objs s))\<rparr>))"
  then have p: "p \<in> set (Map_set (sessions s) (id' session) (length (objs s)))"
    by simp
  obtain k r where kr: "p = (k, r)"
    by (cases p)
  from p kr Map_set_cases [of k r "sessions s" "id' session" "length (objs s)"]
  consider "k = id' session" "r = length (objs s)" | "(k, r) \<in> set (sessions s)"
    by blast
  then show "case p of (k, r) \<Rightarrow>
      r < length (objs (s\<lparr>objs := objs s @ [session],
          sessions := Map_set (sessions s) (id' session) (length (objs s))\<rparr>)) \<and>
      id' (objs (s\<lparr>objs := objs s @ [session],
          sessions := Map_set (sessions s) (id' session) (length (objs s))\<rparr>) ! r) = k \<and>
      threadId (objs (s\<lparr>objs := objs s @ [session],
          sessions := Map_set (sessions s) (id' session) (length (objs s))\<rparr>) ! r) = k \<and>
      status (objs (s\<lparr>objs := objs s @ [session],
          sessions := Map_set (sessions s) (id' session) (length (objs s))\<rparr>) ! r) = Running"
  proof cases
    case 1
    with assms(2,3) kr show ?thesis by simp
  next
    case 2
    with assms(1) have "r < length (objs s) \<and> id' (objs s ! r) = k \<and>
        threadId (objs s ! r) = k \<and> status (objs s ! r) = Running"
      by (auto simp: registry_inv_def)
    with kr show ?thesis by (simp add: nth_append)
  qed
qed

lemma createSession_inv:
  "registry_inv s \<Longrightarrow> registry_inv (snd (createSession s e tid chan usr))"
  by (simp add: createSession_def Let_def registry_inv_storeSession newSession_def
      split: option.split sum.split)

section \<open>Effect of stopSession\<close>


lemma stopSession_ok:
  "Map_get (sessions s) k = Some r \<Longrightarrow>
   container_stop e (containerId (objs s ! r)) = None \<Longrightarrow>
   container_remove e (containerId (objs s ! r)) = None \<Longrightarrow>
   stopSession s e k = (Inr (), stopped s k r)"
  by (simp add: stopSession_def Let_def stopped_def teardownCalls_def issue_def)

lemma stopSession_cases:
  assumes "stopSession s e k = (res, s')"
  shows "(Map_get (sessions s) k = None \<and> res = Inr () \<and> s' = s)
       \<or> (\<exists>r. Map_get (sessions s) k = Some r \<and> res = Inr () \<and> s' = stopped s k r)
       \<or> (\<exists>r err. Map_get (sessions s) k = Some r \<and> res = Inl err \<and>
            objs s' = objs s \<and> sessions s' = sessions s \<and>
            (\<exists>cs. calls s' = calls s @ cs \<and> set cs \<subseteq> set (teardownCalls s r)))"
proof (cases "Map_get (sessions s) k")
  case None
  with assms show ?thesis by (simp add: stopSession_def)
next
  case (Some r)
  show ?thesis
  proof (cases "container_stop e (containerId (objs s ! r))")
    case stop_failed: (Some err)
    with Some assms have "res = Inl err" and "s' = issue (Stop (containerId (objs s ! r))) s"
      by (simp_all add: stopSession_def Let_def)
    then have "objs s' = objs s \<and> sessions s' = sessions s \<and>
        calls s' = calls s @ [Stop (containerId (objs s ! r))] \<and>
        set [Stop (containerId (objs s ! r))] \<subseteq> set (teardownCalls s r)"
      by (simp add: teardownCalls_def)
    with Some \<open>res = Inl err\<close> show ?thesis by blast
  next
    case stop_ok: None
    show ?thesis
    proof (cases "container_remove e (containerId (objs s ! r))")
      case None
      with Some stop_ok assms show ?thesis
        by (simp add: stopSession_ok)
    next
      case (Some err)
      with \<open>Map_get (sessions s) k = Some r\<close> stop_ok assms
      have "res = Inl err"
        and "s' = issue (Remove (containerId (objs s ! r))) (issue (Stop (containerId (objs s ! r))) s)"
        by (simp_all add: stopSession_def Let_def)
      then have "objs s' = objs s \<and> sessions s' = sessions s \<and>
          calls s' = calls s @ teardownCalls s r \<and>
          set (teardownCalls s r) \<subseteq> set (teardownCalls s r)"
        by (simp add: teardownCalls_def)
      with \<open>Map_get (sessions s) k = Some r\<close> \<open>res = Inl err\<close> show ?thesis by blast
    qed
  qed
qed

lemma stopped_fields [simp]:
  "sessions (stopped s k r) = Map_delete (sessions s) k"
  "calls (stopped s k r) = calls s @ teardownCalls s r"
  "length (objs (stopped s k r)) = length (objs s)"
  by (simp_all add: stopped_def)

lemma stopped_obj_other: "i \<noteq> r \<Longrightarrow> objs (stopped s k r) ! i = objs s ! i"
  by (simp add: stopped_def)

lemma stopped_obj_self:
  "r < length (objs s) \<Longrightarrow> objs (stopped s k r) ! r = (objs s ! r)\<lparr>status := Completed\<rparr>"
  by (simp add: stopped_def)

lemma stopped_obj_beyond: "\<not> r < length (objs s) \<Longrightarrow> objs (stopped s k r) = objs s"
  by (simp add: stopped_def list_update_beyond)

lemma stopped_same_fields:
  "createdAt (objs (stopped s k r) ! i) = createdAt (objs s ! i)"
  "containerId (objs (stopped s k r) ! i) = containerId (objs s ! i)"
proof -
  have "createdAt (objs (stopped s k r) ! i) = createdAt (objs s ! i) \<and>
        containerId (objs (stopped s k r) ! i) = containerId (objs s ! i)"
  proof (cases "i = r")
    case False
    then show ?thesis by (simp add: stopped_obj_other)
  next
    case True
    show ?thesis
    proof (cases "r < length (objs s)")
      case True
      with \<open>i = r\<close> show ?thesis by (simp add: stopped_obj_self)
    next
      case False
      then show ?thesis by (simp add: stopped_obj_beyond)
    qed
  qed
  then show "createdAt (objs (stopped s k r) ! i) = createdAt (objs s ! i)"
    and "containerId (objs (stopped s k r) ! i) = containerId (objs s ! i)"
    by simp_all
qed

lemma stopped_other:
  assumes "registry_inv s" and "(k, r) \<in> set (sessions s)" and "(k', r') \<in> set (sessions s)"
    and "k' \<noteq> k"
  shows "objs (stopped s k r) ! r' = objs s ! r'"
proof -
  from assms have "id' (objs s ! r) = k" "id' (objs s ! r') = k'"
    by (auto simp: registry_inv_def)
  with assms(4) have "r' \<noteq> r" by auto
  then show ?thesis by (simp add: stopped_obj_other)
qed

lemma stopped_inv:
  assumes "registry_inv s" and "(k, r) \<in> set (sessions s)"
  shows "registry_inv (stopped s k r)"
  unfolding registry_inv_def
proof (intro conjI ballI)
  show "distinct (map fst (sessions (stopped s k r)))"
    using assms(1) by (simp add: registry_inv_def Map_delete_distinct)
next
  fix p
  assume p: "p \<in> set (sessions (stopped s k r))"
  obtain k' r' where kr: "p = (k', r')" by (cases p)
  with p have mem: "(k', r') \<in> set (sessions s)" and ne: "k' \<noteq> k"
    by (auto simp: Map_delete_set)
  from assms mem ne have same: "objs (stopped s k r) ! r' = objs s ! r'"
    by (rule stopped_other)
  from assms(1) mem have "r' < length (objs s) \<and> id' (objs s ! r') = k' \<and>
      threadId (objs s ! r') = k' \<and> status (objs s ! r') = Running"
    by (auto simp: registry_inv_def)
  with same kr show "case p of (ka, ra) \<Rightarrow>
      ra < length (objs (stopped s k r)) \<and> id' (objs (stopped s k r) ! ra) = ka \<and>
      threadId (objs (stopped s k r) ! ra) = ka \<and> status (objs (stopped s k r) ! ra) = Running"
    by simp
qed


lemma stopSession_inv:
  assumes "registry_inv s"
  shows "registry_inv (snd (stopSession s e k))"
proof -
  obtain res s' where r: "stopSession s e k = (res, s')"
    by (cases "stopSession s e k")
  have "registry_inv s'"
    using stopSession_cases [OF r]
  proof (elim disjE exE conjE)
    assume "s' = s"
    with assms show ?thesis by simp
  next
    fix r
    assume "Map_get (sessions s) k = Some r" and "s' = stopped s k r"
    then show ?thesis using stopped_inv [OF assms Map_get_SomeD] by blast
  next
    assume "objs s' = objs s" and "sessions s' = sessions s"
    with assms show ?thesis by (simp add: registry_inv_def)
  qed
  with r show ?thesis by simp
qed

section \<open>Objects only ever become completed\<close>

lemma evolves_refl: "evolves s s"
  by (simp add: evolves_def)

lemma evolves_same_objs: "objs s' = objs s \<Longrightarrow> evolves s s'"
  by (simp add: evolves_def)

lemma evolves_trans:
  assumes "evolves s s1" and "evolves s1 s2"
  shows "evolves s s2"
  unfolding evolves_def
proof (intro conjI allI)
  show "length (objs s2) = length (objs s)"
    using assms by (simp add: evolves_def)
next
  fix i
  from assms(1) have a: "objs s1 ! i = objs s ! i \<or> objs s1 ! i = (objs s ! i)\<lparr>status := Completed\<rparr>"
    by (simp add: evolves_def)
  from assms(2) have b: "objs s2 ! i = objs s1 ! i \<or> objs s2 ! i = (objs s1 ! i)\<lparr>status := Completed\<rparr>"
    by (simp add: evolves_def)
  from a b show "objs s2 ! i = objs s ! i \<or> objs s2 ! i = (objs s ! i)\<lparr>status := Completed\<rparr>"
    by auto
qed

lemma evolves_stopped: "evolves s (stopped s k r)"
  unfolding evolves_def
proof (intro conjI allI)
  show "length (objs (stopped s k r)) = length (objs s)" by simp
next
  fix i
  show "objs (stopped s k r) ! i = objs s ! i \<or>
        objs (stopped s k r) ! i = (objs s ! i)\<lparr>status := Completed\<rparr>"
  proof (cases "i = r \<and> r < length (objs s)")
    case True
    then show ?thesis by (simp add: stopped_obj_self)
  next
    case False
    then show ?thesis
      by (cases "i = r") (simp_all add: stopped_obj_other stopped_obj_beyond)
  qed
qed

lemma evolves_createdAt: "evolves s s' \<Longrightarrow> createdAt (objs s' ! i) = createdAt (objs s ! i)"
  by (auto simp: evolves_def dest: spec [of _ i])

lemma evolves_containerId: "evolves s s' \<Longrightarrow> containerId (objs s' ! i) = containerId (objs s ! i)"
  by (auto simp: evolves_def dest: spec [of _ i])

lemma evolves_tooOld: "evolves s s' \<Longrightarrow> tooOld now maxAge s' r = tooOld now maxAge s r"
  by (simp add: tooOld_def evolves_createdAt)

lemma evolves_teardownCalls: "evolves s s' \<Longrightarrow> teardownCalls s' r = teardownCalls s r"
  by (simp add: teardownCalls_def evolves_containerId)

lemma evolves_Completed:
  "evolves s s' \<Longrightarrow> status (objs s ! i) = Completed \<Longrightarrow> status (objs s' ! i) = Completed"
  by (auto simp: evolves_def dest: spec [of _ i])

lemma cleanupLoop_Cons_keep:
  "\<not> tooOld now maxAge s r \<Longrightarrow>
   cleanupLoop e now maxAge ((k, r) # es) s = cleanupLoop e now maxAge es s"
  by (simp add: tooOld_def)

lemma cleanupLoop_Cons_stop:
  "tooOld now maxAge s r \<Longrightarrow>
   cleanupLoop e now maxAge ((k, r) # es) s =
     (case stopSession s e k of
        (Inl err, s') \<Rightarrow> (Inl err, s')
      | (Inr u, s') \<Rightarrow> cleanupLoop e now maxAge es s')"
  by (simp add: tooOld_def)


declare cleanupLoop.simps(2) [simp del]

section \<open>The cleanup loop\<close>

lemma stopped_untouched:
  assumes "registry_inv s" and "sessions s = pre @ (k, r) # es" and "p \<in> set (pre @ es)"
  shows "untouched s (stopped s k r) p"
proof -
  obtain k' r' where p: "p = (k', r')" by (cases p)
  from assms(1,2) have d: "distinct (map fst (pre @ (k, r) # es))"
    by (simp add: registry_inv_def)
  with assms(3) p have ne: "k' \<noteq> k"
    by (auto simp: rev_image_eqI)
  from assms(2,3) p have mem: "(k', r') \<in> set (sessions s)" and kr: "(k, r) \<in> set (sessions s)"
    by auto
  from assms(1) kr mem ne have "objs (stopped s k r) ! r' = objs s ! r'"
    by (rule stopped_other)
  moreover from d assms(2) have "sessions (stopped s k r) = pre @ es"
    by (simp add: Map_delete_middle)
  ultimately show ?thesis
    using assms(3) p by (simp add: untouched_def)
qed

lemma cleanupLoop_any:
  assumes "registry_inv s" and "sessions s = pre @ es"
    and "cleanupLoop e now maxAge es s = (res, s')"
  shows "registry_inv s' \<and> evolves s s' \<and>
         (\<forall>p \<in> set pre. untouched s s' p) \<and>
         (\<forall>p \<in> set es. \<not> tooOld now maxAge s (snd p) \<longrightarrow> untouched s s' p) \<and>
         (\<exists>cs. calls s' = calls s @ cs \<and>
            (\<forall>c \<in> set cs. \<exists>p \<in> set es. tooOld now maxAge s (snd p) \<and> c \<in> set (teardownCalls s (snd p))))"
  using assms
proof (induction es arbitrary: s pre)
  case Nil
  then show ?case by (simp add: evolves_refl untouched_def)
next
  case (Cons p es)
  obtain k r where p: "p = (k, r)" by (cases p)
  show ?case
  proof (cases "tooOld now maxAge s r")
    case False
    with Cons.prems(3) p have loop: "cleanupLoop e now maxAge es s = (res, s')"
      by (simp add: cleanupLoop_Cons_keep)
    from Cons.prems(2) have "sessions s = (pre @ [p]) @ es" by simp
    from Cons.IH [OF Cons.prems(1) this loop]
    have ih: "registry_inv s'" "evolves s s'" "\<forall>q \<in> set (pre @ [p]). untouched s s' q"
      "\<forall>q \<in> set es. \<not> tooOld now maxAge s (snd q) \<longrightarrow> untouched s s' q"
      "\<exists>cs. calls s' = calls s @ cs \<and>
         (\<forall>c \<in> set cs. \<exists>q \<in> set es. tooOld now maxAge s (snd q) \<and> c \<in> set (teardownCalls s (snd q)))"
      by blast+
    from ih(3) have "\<forall>q \<in> set pre. untouched s s' q" and "untouched s s' p" by simp_all
    moreover from ih(5) have "\<exists>cs. calls s' = calls s @ cs \<and>
         (\<forall>c \<in> set cs. \<exists>q \<in> set (p # es). tooOld now maxAge s (snd q) \<and> c \<in> set (teardownCalls s (snd q)))"
      by (metis list.set_intros(2))
    ultimately show ?thesis using ih(1,2,4) by simp
  next
    case True
    from Cons.prems(1,2) p have "Map_get (sessions s) k = Some r"
      by (simp add: registry_inv_def Map_get_member)
    obtain res1 s1 where st: "stopSession s e k = (res1, s1)"
      by (cases "stopSession s e k")
    from stopSession_cases [OF st] \<open>Map_get (sessions s) k = Some r\<close>
    consider (ok) "res1 = Inr ()" "s1 = stopped s k r"
      | (failed) err cs where "res1 = Inl err" "objs s1 = objs s" "sessions s1 = sessions s"
          "calls s1 = calls s @ cs" "set cs \<subseteq> set (teardownCalls s r)"
      by auto
    then show ?thesis
    proof cases
      case failed
      with Cons.prems(3) p True st have "s' = s1"
        by (simp add: cleanupLoop_Cons_stop)
      have "\<forall>c \<in> set cs. \<exists>q \<in> set (p # es). tooOld now maxAge s (snd q) \<and> c \<in> set (teardownCalls s (snd q))"
        using failed(5) True p by auto
      with failed \<open>s' = s1\<close> Cons.prems(1,2) show ?thesis
        by (simp add: registry_inv_def evolves_same_objs untouched_def)
    next
      case ok
      with Cons.prems(3) p True st have loop: "cleanupLoop e now maxAge es s1 = (res, s')"
        by (simp add: cleanupLoop_Cons_stop)
      from Cons.prems(1,2) p have kr: "(k, r) \<in> set (sessions s)" by simp
      with Cons.prems(1) ok have inv1: "registry_inv s1"
        by (simp add: stopped_inv)
      from Cons.prems(1,2) p ok have ses1: "sessions s1 = pre @ es"
        by (simp add: registry_inv_def Map_delete_middle)
      have ev1: "evolves s s1"
        using ok by (simp add: evolves_stopped)
      have unt1: "\<forall>q \<in> set (pre @ es). untouched s s1 q"
        using stopped_untouched [OF Cons.prems(1)] Cons.prems(2) p ok by blast
      from Cons.IH [OF inv1 ses1 loop]
      have ih: "registry_inv s'" "evolves s1 s'" "\<forall>q \<in> set pre. untouched s1 s' q"
        "\<forall>q \<in> set es. \<not> tooOld now maxAge s1 (snd q) \<longrightarrow> untouched s1 s' q"
        "\<exists>cs. calls s' = calls s1 @ cs \<and>
           (\<forall>c \<in> set cs. \<exists>q \<in> set es. tooOld now maxAge s1 (snd q) \<and> c \<in> set (teardownCalls s1 (snd q)))"
        by blast+
      have ev: "evolves s s'"
        using ev1 ih(2) by (rule evolves_trans)
      have a: "\<forall>q \<in> set pre. untouched s s' q"
        using unt1 ih(3) by (auto simp: untouched_def)
      have b: "\<forall>q \<in> set (p # es). \<not> tooOld now maxAge s (snd q) \<longrightarrow> untouched s s' q"
        using unt1 ih(4) True p by (auto simp: untouched_def evolves_tooOld [OF ev1])
      from ih(5) obtain cs where cs: "calls s' = calls s1 @ cs"
        "\<forall>c \<in> set cs. \<exists>q \<in> set es. tooOld now maxAge s (snd q) \<and> c \<in> set (teardownCalls s (snd q))"
        by (auto simp: evolves_tooOld [OF ev1] evolves_teardownCalls [OF ev1])
      have "calls s' = calls s @ (teardownCalls s r @ cs)"
        using cs(1) ok by simp
      moreover have "\<forall>c \<in> set (teardownCalls s r @ cs).
          \<exists>q \<in> set (p # es). tooOld now maxAge s (snd q) \<and> c \<in> set (teardownCalls s (snd q))"
        using cs(2) True p by auto
      ultimately have c: "\<exists>cs. calls s' = calls s @ cs \<and>
          (\<forall>c \<in> set cs. \<exists>q \<in> set (p # es). tooOld now maxAge s (snd q) \<and> c \<in> set (teardownCalls s (snd q)))"
        by blast
      from ih(1) ev a b c show ?thesis by blast
    qed
  qed
qed

lemma cleanupLoop_ok:
  assumes "registry_inv s" and "sessions s = pre @ es"
    and "\<forall>p \<in> set es. tooOld now maxAge s (snd p) \<longrightarrow>
           container_stop e (containerId (objs s ! snd p)) = None \<and>
           container_remove e (containerId (objs s ! snd p)) = None"
  shows "\<exists>s'. cleanupLoop e now maxAge es s = (Inr (), s') \<and>
           sessions s' = pre @ filter (\<lambda>p. \<not> tooOld now maxAge s (snd p)) es \<and>
           (\<forall>p \<in> set es. tooOld now maxAge s (snd p) \<longrightarrow> status (objs s' ! snd p) = Completed) \<and>
           calls s' = calls s @
             concat (map (\<lambda>p. teardownCalls s (snd p)) (filter (\<lambda>p. tooOld now maxAge s (snd p)) es))"
  using assms
proof (induction es arbitrary: s pre)
  case Nil
  then show ?case by simp
next
  case (Cons p es)
  obtain k r where p: "p = (k, r)" by (cases p)
  show ?case
  proof (cases "tooOld now maxAge s r")
    case False
    from Cons.prems(2) have ses: "sessions s = (pre @ [p]) @ es" by simp
    from Cons.prems(3) have "\<forall>q \<in> set es. tooOld now maxAge s (snd q) \<longrightarrow>
           container_stop e (containerId (objs s ! snd q)) = None \<and>
           container_remove e (containerId (objs s ! snd q)) = None"
      by simp
    from Cons.IH [OF Cons.prems(1) ses this] obtain s' where
      s': "cleanupLoop e now maxAge es s = (Inr (), s')"
        "sessions s' = (pre @ [p]) @ filter (\<lambda>q. \<not> tooOld now maxAge s (snd q)) es"
        "\<forall>q \<in> set es. tooOld now maxAge s (snd q) \<longrightarrow> status (objs s' ! snd q) = Completed"
        "calls s' = calls s @
           concat (map (\<lambda>q. teardownCalls s (snd q)) (filter (\<lambda>q. tooOld now maxAge s (snd q)) es))"
      by blast
    from s'(1) False p have "cleanupLoop e now maxAge (p # es) s = (Inr (), s')"
      by (simp add: cleanupLoop_Cons_keep)
    moreover from s'(2) False p
    have "sessions s' = pre @ filter (\<lambda>q. \<not> tooOld now maxAge s (snd q)) (p # es)"
      by simp
    moreover from s'(3) False p
    have "\<forall>q \<in> set (p # es). tooOld now maxAge s (snd q) \<longrightarrow> status (objs s' ! snd q) = Completed"
      by simp
    moreover from s'(4) False p
    have "calls s' = calls s @
           concat (map (\<lambda>q. teardownCalls s (snd q)) (filter (\<lambda>q. tooOld now maxAge s (snd q)) (p # es)))"
      by simp
    ultimately show ?thesis by blast
  next
    case True
    from Cons.prems(1,2) p have get: "Map_get (sessions s) k = Some r"
      by (simp add: registry_inv_def Map_get_member)
    from Cons.prems(3) True p have "container_stop e (containerId (objs s ! r)) = None"
      and "container_remove e (containerId (objs s ! r)) = None"
      by simp_all
    with get have st: "stopSession s e k = (Inr (), stopped s k r)"
      by (rule stopSession_ok)
    let ?s1 = "stopped s k r"
    from Cons.prems(1,2) p have kr: "(k, r) \<in> set (sessions s)" by simp
    with Cons.prems(1) have inv1: "registry_inv ?s1"
      by (rule stopped_inv)
    from Cons.prems(1,2) p have ses1: "sessions ?s1 = pre @ es"
      by (simp add: registry_inv_def Map_delete_middle)
    have ev1: "evolves s ?s1"
      by (rule evolves_stopped)
    from Cons.prems(3) have "\<forall>q \<in> set es. tooOld now maxAge ?s1 (snd q) \<longrightarrow>
           container_stop e (containerId (objs ?s1 ! snd q)) = None \<and>
           container_remove e (containerId (objs ?s1 ! snd q)) = None"
      by (simp add: evolves_tooOld [OF ev1] evolves_containerId [OF ev1])
    from Cons.IH [OF inv1 ses1 this] obtain s' where
      s': "cleanupLoop e now maxAge es ?s1 = (Inr (), s')"
        "sessions s' = pre @ filter (\<lambda>q. \<not> tooOld now maxAge s (snd q)) es"
        "\<forall>q \<in> set es. tooOld now maxAge s (snd q) \<longrightarrow> status (objs s' ! snd q) = Completed"
        "calls s' = calls ?s1 @
           concat (map (\<lambda>q. teardownCalls s (snd q)) (filter (\<lambda>q. tooOld now maxAge s (snd q)) es))"
      by (auto simp: evolves_tooOld [OF ev1] evolves_teardownCalls [OF ev1])
    from cleanupLoop_any [OF inv1 ses1 s'(1)] have ev2: "evolves ?s1 s'"
      by blast
    from Cons.prems(1) kr have "r < length (objs s)"
      by (auto simp: registry_inv_def)
    then have "status (objs ?s1 ! r) = Completed"
      by (simp add: stopped_obj_self)
    with ev2 have compl: "status (objs s' ! r) = Completed"
      by (rule evolves_Completed)
    from s'(1) True p st have "cleanupLoop e now maxAge (p # es) s = (Inr (), s')"
      by (simp add: cleanupLoop_Cons_stop)
    moreover from s'(2) True p
    have "sessions s' = pre @ filter (\<lambda>q. \<not> tooOld now maxAge s (snd q)) (p # es)"
      by simp
    moreover from s'(3) compl p
    have "\<forall>q \<in> set (p # es). tooOld now maxAge s (snd q) \<longrightarrow> status (objs s' ! snd q) = Completed"
      by simp
    moreover from s'(4) True p
    have "calls s' = calls s @
           concat (map (\<lambda>q. teardownCalls s (snd q)) (filter (\<lambda>q. tooOld now maxAge s (snd q)) (p # es)))"
      by simp
    ultimately show ?thesis by blast
  qed
qed

section \<open>Every operation keeps the registry well formed\<close>

lemma executeCommand_state:
  "objs (snd (executeCommand s e k c)) = objs s"
  "sessions (snd (executeCommand s e k c)) = sessions s"
  by (simp_all add: executeCommand_def Let_def split: option.split)


lemma executeCommand_state':
  "executeCommand s e k c = (res, s') \<Longrightarrow> objs s' = objs s \<and> sessions s' = sessions s"
  using executeCommand_state [of s e k c] by simp

lemma executeClaudeCode_state':
  assumes "executeClaudeCode s e k msg = (response, s')"
  shows "objs s' = objs s \<and> sessions s' = sessions s"
proof -
  obtain r1 s1 where c1: "executeCommand s e k (seedCommand msg (messageFile (Date_now e))) = (r1, s1)"
    by (cases "executeCommand s e k (seedCommand msg (messageFile (Date_now e)))")
  obtain r2 s2 where c2: "executeCommand s1 e k (toolCommand msg) = (r2, s2)"
    by (cases "executeCommand s1 e k (toolCommand msg)")
  from c1 have s1: "objs s1 = objs s \<and> sessions s1 = sessions s"
    by (rule executeCommand_state')
  from c2 have s2: "objs s2 = objs s1 \<and> sessions s2 = sessions s1"
    by (rule executeCommand_state')
  from assms c1 c2 have "s' = s1 \<or> s' = s2"
    by (auto simp: executeClaudeCode_def split: sum.splits)
  with s1 s2 show ?thesis by auto
qed

lemma executeClaudeCode_state:
  "objs (snd (executeClaudeCode s e k msg)) = objs s"
  "sessions (snd (executeClaudeCode s e k msg)) = sessions s"
  using executeClaudeCode_state' [of s e k msg] by (simp_all add: prod_eq_iff)


lemma evolves_never_failed:
  assumes "evolves s s'" and "never_failed s"
  shows "never_failed s'"
  unfolding never_failed_def
proof (intro allI impI)
  fix i
  assume "i < length (objs s')"
  with assms(1) have "i < length (objs s)" by (simp add: evolves_def)
  with assms(2) have "status (objs s ! i) \<noteq> Failed" by (simp add: never_failed_def)
  moreover from assms(1)
  have "objs s' ! i = objs s ! i \<or> objs s' ! i = (objs s ! i)\<lparr>status := Completed\<rparr>"
    by (simp add: evolves_def)
  ultimately show "status (objs s' ! i) \<noteq> Failed" by auto
qed

lemma storeSession_never_failed:
  assumes "never_failed s" and "status session = Running"
  shows "never_failed (storeSession session s)"
  unfolding never_failed_def
proof (intro allI impI)
  fix i
  assume "i < length (objs (storeSession session s))"
  then have "i < length (objs s) \<or> i = length (objs s)"
    by (auto simp: storeSession_def)
  with assms show "status (objs (storeSession session s) ! i) \<noteq> Failed"
    by (auto simp: storeSession_def never_failed_def nth_append)
qed

lemma never_failed_issue [simp]: "never_failed (issue c s) = never_failed s"
  by (simp add: never_failed_def)

lemma createSession_never_failed:
  "never_failed s \<Longrightarrow> never_failed (snd (createSession s e tid chan usr))"
  by (simp add: createSession_def Let_def storeSession_never_failed newSession_def
      split: option.split sum.split)

lemma stopSession_evolves: "evolves s (snd (stopSession s e k))"
proof -
  obtain res s' where r: "stopSession s e k = (res, s')"
    by (cases "stopSession s e k")
  have "evolves s s'"
    using stopSession_cases [OF r]
  proof (elim disjE exE conjE)
    assume "s' = s"
    then show ?thesis by (simp add: evolves_refl)
  next
    fix r
    assume "s' = stopped s k r"
    then show ?thesis by (simp add: evolves_stopped)
  next
    assume "objs s' = objs s"
    then show ?thesis by (rule evolves_same_objs)
  qed
  with r show ?thesis by simp
qed

lemma cleanupOldSessions_inv:
  assumes "registry_inv s"
  shows "registry_inv (snd (cleanupOldSessions s e h)) \<and> evolves s (snd (cleanupOldSessions s e h))"
proof -
  obtain res s' where r: "cleanupLoop e (Date_now e) (h * 60 * 60 * 1000) (sessions s) s = (res, s')"
    by (cases "cleanupLoop e (Date_now e) (h * 60 * 60 * 1000) (sessions s) s")
  have "sessions s = [] @ sessions s" by simp
  from cleanupLoop_any [OF assms this r] have "registry_inv s' \<and> evolves s s'"
    by blast
  with r show ?thesis by (simp add: cleanupOldSessions_def Let_def)
qed

lemma createOrAttach_state:
  "snd (createOrAttach s e chan tid usr) = s \<or>
   snd (createOrAttach s e chan tid usr) = snd (createSession s e tid chan usr)"
proof (cases "getSessionByThread s tid")
  case (Some r)
  then show ?thesis by (simp add: createOrAttach_def)
next
  case None
  obtain res s' where c: "createSession s e tid chan usr = (res, s')"
    by (cases "createSession s e tid chan usr")
  with None show ?thesis
    by (simp add: createOrAttach_def split: sum.split option.split)
qed

lemma createOrAttach_inv:
  "registry_inv s \<Longrightarrow> registry_inv (snd (createOrAttach s e chan tid usr))"
  using createSession_inv [of s e tid chan usr] createOrAttach_state [of s e chan tid usr]
  by auto

lemma createOrAttach_never_failed:
  "never_failed s \<Longrightarrow> never_failed (snd (createOrAttach s e chan tid usr))"
  using createSession_never_failed [of s e tid chan usr] createOrAttach_state [of s e chan tid usr]
  by auto

lemma processMessage_state:
  "processMessage s e chan tid usr msg = (res, s') \<Longrightarrow>
   objs s' = objs (snd (createOrAttach s e chan tid usr)) \<and>
   sessions s' = sessions (snd (createOrAttach s e chan tid usr))"
  by (auto simp: processMessage_def split: prod.splits sum.splits dest: executeClaudeCode_state')

lemma stopSessionByThread_cases:
  "stopSessionByThread s e tid = (Inr (), s) \<or>
   (\<exists>k. stopSessionByThread s e tid = stopSession s e k)"
  by (cases "getSessionByThread s tid") (auto simp: stopSessionByThread_def)

lemma apply_op_inv:
  assumes "registry_inv s \<and> never_failed s"
  shows "registry_inv (apply_op s x) \<and> never_failed (apply_op s x)"
proof (cases x)
  case (CreateSession e tid chan usr)
  with assms show ?thesis by (simp add: createSession_inv createSession_never_failed)
next
  case (StopSession e k)
  with assms show ?thesis
    using stopSession_inv [of s e k] evolves_never_failed [OF stopSession_evolves [of s e k]]
    by simp
next
  case (CleanupOldSessions e h)
  with assms show ?thesis
    using cleanupOldSessions_inv [of s e h] evolves_never_failed [of s "snd (cleanupOldSessions s e h)"]
    by simp
next
  case (ProcessMessage e chan tid usr msg)
  obtain res s' where r: "processMessage s e chan tid usr msg = (res, s')"
    by (cases "processMessage s e chan tid usr msg")
  from processMessage_state [OF r] assms
  have "registry_inv s' \<and> never_failed s'"
    using createOrAttach_inv [of s e chan tid usr] createOrAttach_never_failed [of s e chan tid usr]
    by (simp add: registry_inv_def never_failed_def)
  with r ProcessMessage show ?thesis by simp
next
  case (StopSessionByThread e tid)
  from stopSessionByThread_cases [of s e tid]
  consider "stopSessionByThread s e tid = (Inr (), s)"
    | k where "stopSessionByThread s e tid = stopSession s e k"
    by blast
  then show ?thesis
  proof cases
    case 1
    with assms StopSessionByThread show ?thesis by simp
  next
    case 2
    with assms StopSessionByThread show ?thesis
      using stopSession_inv [of s e k] evolves_never_failed [OF stopSession_evolves [of s e k]]
      by simp
  qed
qed

lemma foldl_apply_op_inv:
  "registry_inv s \<and> never_failed s \<Longrightarrow>
   registry_inv (foldl apply_op s ops) \<and> never_failed (foldl apply_op s ops)"
proof (induction ops arbitrary: s)
  case Nil
  then show ?case by simp
next
  case (Cons x ops)
  from Cons.prems have "registry_inv (apply_op s x) \<and> never_failed (apply_op s x)"
    by (rule apply_op_inv)
  then show ?case using Cons.IH by simp
qed

lemma never_failed_init: "never_failed init"
  by (simp add: never_failed_def init_def)

lemma run_inv: "registry_inv (run ops) \<and> never_failed (run ops)"
  unfolding run_def
  by (rule foldl_apply_op_inv) (simp add: registry_inv_init never_failed_init)

lemma distinct_keys_filter:
  "distinct (map fst m) \<Longrightarrow> length (filter (\<lambda>p. fst p = k) m) \<le> 1"
  by (induction m) (auto simp: filter_empty_conv rev_image_eqI)


section \<open>Classification of artifacts\<close>




section \<open>The example states, evaluated\<close>

lemma one_session_eq:
  "one_session =
     \<lparr>objs = [newSession ''t1'' ''c-t1'' ''ch'' ''u'' 1000], sessions = [(''t1'', 0)],
      calls = [Mkdir ''t1'', CreateContainer ''t1'', Start ''c-t1'']\<rparr>"
  by (simp add: one_session_def run_def init_def createSession_def env_ok_def storeSession_def
      issue_def Let_def newSession_def)

lemma two_sessions_eq:
  "two_sessions =
     \<lparr>objs = [newSession ''t1'' ''c-t1'' ''ch'' ''u'' 1000,
              newSession ''t2'' ''c-t2'' ''ch'' ''u'' 3000000],
      sessions = [(''t1'', 0), (''t2'', 1)],
      calls = [Mkdir ''t1'', CreateContainer ''t1'', Start ''c-t1'',
               Mkdir ''t2'', CreateContainer ''t2'', Start ''c-t2'']\<rparr>"
  by (simp add: two_sessions_def run_def init_def createSession_def env_ok_def storeSession_def
      issue_def Let_def newSession_def)

section \<open>The registry invariant\<close>

text \<open>
  Claim C7. In every state reached by a sequence of operations of the two services
  (\<open>createSession\<close>, \<open>stopSession\<close>, \<open>cleanupOldSessions\<close>, and
  \<open>processMessage\<close> and the stop by thread, which call them), the registry stores at
  most one running session for each thread identifier, and the \<open>id\<close> of every stored
  session equals its \<open>threadId\<close> and its key.
\<close>

theorem one_running_session_per_thread:
  "(\<forall>tid. length (filter (\<lambda>p. threadId (objs (run ops) ! snd p) = tid \<and>
                               status (objs (run ops) ! snd p) = Running)
                      (sessions (run ops))) \<le> 1)
   \<and> (\<forall>p \<in> set (sessions (run ops)).
         id' (objs (run ops) ! snd p) = threadId (objs (run ops) ! snd p) \<and>
         id' (objs (run ops) ! snd p) = fst p)"
proof -
  from run_inv [of ops] have inv: "registry_inv (run ops)" by simp
  then have ent: "\<forall>p \<in> set (sessions (run ops)).
      id' (objs (run ops) ! snd p) = fst p \<and> threadId (objs (run ops) ! snd p) = fst p \<and>
      status (objs (run ops) ! snd p) = Running"
    by (auto simp: registry_inv_def)
  have "\<forall>tid. length (filter (\<lambda>p. threadId (objs (run ops) ! snd p) = tid \<and>
                               status (objs (run ops) ! snd p) = Running)
                      (sessions (run ops))) \<le> 1"
  proof
    fix tid
    have "filter (\<lambda>p. threadId (objs (run ops) ! snd p) = tid \<and>
                     status (objs (run ops) ! snd p) = Running) (sessions (run ops))
        = filter (\<lambda>p. fst p = tid) (sessions (run ops))"
      using ent by (intro filter_cong) auto
    with inv show "length (filter (\<lambda>p. threadId (objs (run ops) ! snd p) = tid \<and>
                               status (objs (run ops) ! snd p) = Running)
                      (sessions (run ops))) \<le> 1"
      using distinct_keys_filter [of "sessions (run ops)" tid] by (simp add: registry_inv_def)
  qed
  with ent show ?thesis by simp
qed

theorem one_running_session_per_thread_witness:
  "sessions two_sessions = [(''t1'', 0), (''t2'', 1)]
   \<and> id' (objs two_sessions ! 0) = ''t1'' \<and> threadId (objs two_sessions ! 0) = ''t1''
   \<and> id' (objs two_sessions ! 1) = ''t2'' \<and> threadId (objs two_sessions ! 1) = ''t2''"
proof -
  have s: "sessions two_sessions = [(''t1'', 0), (''t2'', 1)]"
    by (simp add: two_sessions_eq)
  note one_running_session_per_thread
    [of "[CreateSession env_ok ''t1'' ''ch'' ''u'',
          CreateSession (env_ok\<lparr>Date_now := 3000000\<rparr>) ''t2'' ''ch'' ''u'']",
     folded two_sessions_def]
  then have all: "\<forall>p \<in> set (sessions two_sessions).
         id' (objs two_sessions ! snd p) = threadId (objs two_sessions ! snd p) \<and>
         id' (objs two_sessions ! snd p) = fst p"
    by blast
  have "(''t1'', 0) \<in> set (sessions two_sessions)" and "(''t2'', 1) \<in> set (sessions two_sessions)"
    by (simp_all add: s)
  with all have "id' (objs two_sessions ! 0) = threadId (objs two_sessions ! 0) \<and>
      id' (objs two_sessions ! 0) = ''t1''"
    and "id' (objs two_sessions ! 1) = threadId (objs two_sessions ! 1) \<and>
      id' (objs two_sessions ! 1) = ''t2''"
    by force+
  with s show ?thesis by metis
qed


section \<open>The cleanup sweep\<close>

lemma Map_get_filter_out:
  assumes "distinct (map fst m)" and "p \<in> set m" and "\<not> P p"
  shows "Map_get (filter P m) (fst p) = None"
proof -
  have "fst p \<notin> fst ` set (filter P m)"
  proof
    assume "fst p \<in> fst ` set (filter P m)"
    then obtain q where q: "q \<in> set m" "P q" "fst q = fst p" by auto
    with assms(1,2) have "q = p"
      by (metis eq_key_imp_eq_value prod.collapse)
    with q(2) assms(3) show False by simp
  qed
  then show ?thesis
    by (simp add: Map_get_def map_of_eq_None_iff)
qed

text \<open>
  Claim C5, as stated, fails on the code. The one stored session is older than 24
  hours and the stop of its container is rejected: \<open>stopSession\<close> deletes the entry
  only after both the stop and the remove resolved, so after the sweep the session is
  still stored and running although its age exceeds the threshold.
\<close>

theorem expired_session_kept_counterexample:
  "expired env_stop_fails 24 one_session 0
   \<and> cleanupOldSessions one_session env_stop_fails 24 =
       (Inl (Error ''stop failed''), issue (Stop ''c-t1'') one_session)
   \<and> Map_get (sessions (issue (Stop ''c-t1'') one_session)) ''t1'' = Some 0
   \<and> status (objs (issue (Stop ''c-t1'') one_session) ! 0) = Running"
proof -
  have e: "expired env_stop_fails 24 one_session 0"
    by (simp add: expired_def tooOld_def env_stop_fails_def env_ok_def one_session_eq newSession_def)
  then have old: "tooOld 90000000 86400000 one_session 0"
    by (simp add: expired_def env_stop_fails_def env_ok_def)
  have ses: "sessions one_session = [(''t1'', 0)]"
    by (simp add: one_session_eq)
  have cid: "containerId (objs one_session ! 0) = ''c-t1''"
    by (simp add: one_session_eq newSession_def)
  have st: "stopSession one_session env_stop_fails ''t1'' =
      (Inl (Error ''stop failed''), issue (Stop ''c-t1'') one_session)"
    by (simp add: stopSession_def Map_get_def ses cid Let_def env_stop_fails_def env_ok_def)
  have "cleanupOldSessions one_session env_stop_fails 24 =
      cleanupLoop env_stop_fails 90000000 86400000 [(''t1'', 0)] one_session"
    by (simp add: cleanupOldSessions_def Let_def ses env_stop_fails_def env_ok_def)
  also have "\<dots> = (Inl (Error ''stop failed''), issue (Stop ''c-t1'') one_session)"
    using old st by (simp add: cleanupLoop_Cons_stop)
  finally have run: "cleanupOldSessions one_session env_stop_fails 24 =
      (Inl (Error ''stop failed''), issue (Stop ''c-t1'') one_session)" .
  have rest: "Map_get (sessions (issue (Stop ''c-t1'') one_session)) ''t1'' = Some 0
   \<and> status (objs (issue (Stop ''c-t1'') one_session) ! 0) = Running"
    by (simp add: one_session_eq Map_get_def newSession_def)
  from e run rest show ?thesis by blast
qed

text \<open>
  Claim C5, amended. A sweep with threshold \<open>maxAgeHours\<close> over a well-formed
  registry: a session is expired exactly when \<open>now - createdAt\<close> is strictly greater
  than the threshold in milliseconds. Whatever Docker answers, a session that is not
  expired stays stored with its object unchanged, and each call the sweep issues is the
  stop or the remove of the container of an expired session. When the stop and the
  remove of every expired session's container succeed, the sweep returns normally, the
  registry is exactly the sessions that are not expired, in their order (as a set,
  whatever the order was), and every expired session is completed and no longer stored.
\<close>

theorem cleanupOldSessions_by_age:
  assumes "registry_inv s" and "cleanupOldSessions s e maxAgeHours = (res, s')"
  shows "(\<forall>p \<in> set (sessions s).
            expired e maxAgeHours s (snd p) \<longleftrightarrow>
            Date_now e - createdAt (objs s ! snd p) > maxAgeHours * 60 * 60 * 1000)
       \<and> (\<forall>p \<in> set (sessions s). \<not> expired e maxAgeHours s (snd p) \<longrightarrow> untouched s s' p)
       \<and> (\<exists>cs. calls s' = calls s @ cs \<and>
             (\<forall>c \<in> set cs. \<exists>p \<in> set (sessions s).
                 expired e maxAgeHours s (snd p) \<and> c \<in> set (teardownCalls s (snd p))))
       \<and> ((\<forall>p \<in> set (sessions s). expired e maxAgeHours s (snd p) \<longrightarrow>
               container_stop e (containerId (objs s ! snd p)) = None \<and>
               container_remove e (containerId (objs s ! snd p)) = None) \<longrightarrow>
            res = Inr () \<and>
            sessions s' = filter (\<lambda>p. \<not> expired e maxAgeHours s (snd p)) (sessions s) \<and>
            set (sessions s') = {p \<in> set (sessions s). \<not> expired e maxAgeHours s (snd p)} \<and>
            (\<forall>p \<in> set (sessions s). expired e maxAgeHours s (snd p) \<longrightarrow>
               status (objs s' ! snd p) = Completed \<and> Map_get (sessions s') (fst p) = None) \<and>
            calls s' = calls s @
              concat (map (\<lambda>p. teardownCalls s (snd p))
                        (filter (\<lambda>p. expired e maxAgeHours s (snd p)) (sessions s))))"
proof -
  let ?now = "Date_now e" and ?maxAge = "maxAgeHours * 60 * 60 * 1000"
  have ex: "\<And>r. expired e maxAgeHours s r = tooOld ?now ?maxAge s r"
    by (simp add: expired_def)
  from assms(2) have loop: "cleanupLoop e ?now ?maxAge (sessions s) s = (res, s')"
    by (simp add: cleanupOldSessions_def Let_def)
  have split: "sessions s = [] @ sessions s" by simp
  from cleanupLoop_any [OF assms(1) split loop]
  have b: "\<forall>p \<in> set (sessions s). \<not> expired e maxAgeHours s (snd p) \<longrightarrow> untouched s s' p"
    and c: "\<exists>cs. calls s' = calls s @ cs \<and>
       (\<forall>c \<in> set cs. \<exists>p \<in> set (sessions s).
           expired e maxAgeHours s (snd p) \<and> c \<in> set (teardownCalls s (snd p)))"
    unfolding ex by blast+
  have a: "\<forall>p \<in> set (sessions s).
            expired e maxAgeHours s (snd p) \<longleftrightarrow>
            Date_now e - createdAt (objs s ! snd p) > maxAgeHours * 60 * 60 * 1000"
    by (simp add: expired_def tooOld_def)
  have d: "(\<forall>p \<in> set (sessions s). expired e maxAgeHours s (snd p) \<longrightarrow>
               container_stop e (containerId (objs s ! snd p)) = None \<and>
               container_remove e (containerId (objs s ! snd p)) = None) \<longrightarrow>
            res = Inr () \<and>
            sessions s' = filter (\<lambda>p. \<not> expired e maxAgeHours s (snd p)) (sessions s) \<and>
            set (sessions s') = {p \<in> set (sessions s). \<not> expired e maxAgeHours s (snd p)} \<and>
            (\<forall>p \<in> set (sessions s). expired e maxAgeHours s (snd p) \<longrightarrow>
               status (objs s' ! snd p) = Completed \<and> Map_get (sessions s') (fst p) = None) \<and>
            calls s' = calls s @
              concat (map (\<lambda>p. teardownCalls s (snd p))
                        (filter (\<lambda>p. expired e maxAgeHours s (snd p)) (sessions s)))"
  proof
    assume "\<forall>p \<in> set (sessions s). expired e maxAgeHours s (snd p) \<longrightarrow>
               container_stop e (containerId (objs s ! snd p)) = None \<and>
               container_remove e (containerId (objs s ! snd p)) = None"
    then have ok: "\<forall>p \<in> set (sessions s). tooOld ?now ?maxAge s (snd p) \<longrightarrow>
               container_stop e (containerId (objs s ! snd p)) = None \<and>
               container_remove e (containerId (objs s ! snd p)) = None"
      by (simp add: ex)
    from cleanupLoop_ok [OF assms(1) split ok] loop
    have r: "res = Inr ()"
      and ses: "sessions s' = filter (\<lambda>p. \<not> expired e maxAgeHours s (snd p)) (sessions s)"
      and st: "\<forall>p \<in> set (sessions s). expired e maxAgeHours s (snd p) \<longrightarrow>
                 status (objs s' ! snd p) = Completed"
      and cl: "calls s' = calls s @
              concat (map (\<lambda>p. teardownCalls s (snd p))
                        (filter (\<lambda>p. expired e maxAgeHours s (snd p)) (sessions s)))"
      by (auto simp: ex)
    from assms(1) have dist: "distinct (map fst (sessions s))"
      by (simp add: registry_inv_def)
    have gone: "\<forall>p \<in> set (sessions s). expired e maxAgeHours s (snd p) \<longrightarrow>
        Map_get (sessions s') (fst p) = None"
      using Map_get_filter_out [OF dist, of _ "\<lambda>p. \<not> expired e maxAgeHours s (snd p)"] ses
      by simp
    from ses have "set (sessions s') = {p \<in> set (sessions s). \<not> expired e maxAgeHours s (snd p)}"
      by simp
    with r ses st cl gone show "res = Inr () \<and>
            sessions s' = filter (\<lambda>p. \<not> expired e maxAgeHours s (snd p)) (sessions s) \<and>
            set (sessions s') = {p \<in> set (sessions s). \<not> expired e maxAgeHours s (snd p)} \<and>
            (\<forall>p \<in> set (sessions s). expired e maxAgeHours s (snd p) \<longrightarrow>
               status (objs s' ! snd p) = Completed \<and> Map_get (sessions s') (fst p) = None) \<and>
            calls s' = calls s @
              concat (map (\<lambda>p. teardownCalls s (snd p))
                        (filter (\<lambda>p. expired e maxAgeHours s (snd p)) (sessions s)))"
      by blast
  qed
  show ?thesis
    by (rule conjI [OF a conjI [OF b conjI [OF c d]]])
qed

theorem cleanupOldSessions_by_age_witness:
  "registry_inv two_sessions
   \<and> expired env_later 1 two_sessions 0 \<and> \<not> expired env_later 1 two_sessions 1
   \<and> fst (cleanupOldSessions two_sessions env_later 1) = Inr ()
   \<and> sessions (snd (cleanupOldSessions two_sessions env_later 1)) = [(''t2'', 1)]
   \<and> status (objs (snd (cleanupOldSessions two_sessions env_later 1)) ! 0) = Completed
   \<and> untouched two_sessions (snd (cleanupOldSessions two_sessions env_later 1)) (''t2'', 1)"
proof -
  let ?res = "fst (cleanupOldSessions two_sessions env_later 1)"
  let ?s' = "snd (cleanupOldSessions two_sessions env_later 1)"
  have inv: "registry_inv two_sessions"
    using run_inv unfolding two_sessions_def by blast
  have run: "cleanupOldSessions two_sessions env_later 1 = (?res, ?s')"
    by simp
  have ses: "sessions two_sessions = [(''t1'', 0), (''t2'', 1)]"
    by (simp add: two_sessions_eq)
  have e0: "expired env_later 1 two_sessions 0"
    by (simp add: expired_def tooOld_def env_later_def env_ok_def two_sessions_eq newSession_def)
  have e1: "\<not> expired env_later 1 two_sessions 1"
    by (simp add: expired_def tooOld_def env_later_def env_ok_def two_sessions_eq newSession_def)
  have ok: "\<forall>p \<in> set (sessions two_sessions). expired env_later 1 two_sessions (snd p) \<longrightarrow>
      container_stop env_later (containerId (objs two_sessions ! snd p)) = None \<and>
      container_remove env_later (containerId (objs two_sessions ! snd p)) = None"
    by (simp add: env_later_def env_ok_def)
  note th = cleanupOldSessions_by_age [OF inv run]
  from th ok have "?res = Inr ()"
    and "sessions ?s' = filter (\<lambda>p. \<not> expired env_later 1 two_sessions (snd p)) (sessions two_sessions)"
    and "\<forall>p \<in> set (sessions two_sessions). expired env_later 1 two_sessions (snd p) \<longrightarrow>
           status (objs ?s' ! snd p) = Completed \<and> Map_get (sessions ?s') (fst p) = None"
    by blast+
  with ses e0 e1 have r: "?res = Inr ()" and s: "sessions ?s' = [(''t2'', 1)]"
    and c: "status (objs ?s' ! 0) = Completed"
    by simp_all
  from th have "\<forall>p \<in> set (sessions two_sessions).
      \<not> expired env_later 1 two_sessions (snd p) \<longrightarrow> untouched two_sessions ?s' p"
    by blast
  with ses e1 have u: "untouched two_sessions ?s' (''t2'', 1)"
    by simp
  from inv e0 e1 r s c u show ?thesis by blast
qed


section \<open>A failing teardown ends the sweep\<close>

text \<open>
  Claim C6, on the code. Both sessions of \<open>two_sessions\<close> are older than 24 hours and
  the stop of the first container is rejected: the sweep is rejected with that error
  after the one call \<open>Stop c-t1\<close>, and the second session, expired as well, is still
  stored and running, its container neither stopped nor removed.
\<close>

theorem cleanupOldSessions_aborts_on_failure:
  "expired env_stop_fails 24 two_sessions 0 \<and> expired env_stop_fails 24 two_sessions 1
   \<and> cleanupOldSessions two_sessions env_stop_fails 24 =
       (Inl (Error ''stop failed''), issue (Stop ''c-t1'') two_sessions)
   \<and> Map_get (sessions (issue (Stop ''c-t1'') two_sessions)) ''t2'' = Some 1
   \<and> status (objs (issue (Stop ''c-t1'') two_sessions) ! 1) = Running
   \<and> Stop ''c-t2'' \<notin> set (calls (issue (Stop ''c-t1'') two_sessions))"
proof -
  have e: "expired env_stop_fails 24 two_sessions 0 \<and> expired env_stop_fails 24 two_sessions 1"
    by (simp add: expired_def tooOld_def env_stop_fails_def env_ok_def two_sessions_eq newSession_def)
  then have old: "tooOld 90000000 86400000 two_sessions 0"
    by (simp add: expired_def env_stop_fails_def env_ok_def)
  have ses: "sessions two_sessions = [(''t1'', 0), (''t2'', 1)]"
    by (simp add: two_sessions_eq)
  have cid: "containerId (objs two_sessions ! 0) = ''c-t1''"
    by (simp add: two_sessions_eq newSession_def)
  have st: "stopSession two_sessions env_stop_fails ''t1'' =
      (Inl (Error ''stop failed''), issue (Stop ''c-t1'') two_sessions)"
    by (simp add: stopSession_def Map_get_def ses cid Let_def env_stop_fails_def env_ok_def)
  have "cleanupOldSessions two_sessions env_stop_fails 24 =
      cleanupLoop env_stop_fails 90000000 86400000 [(''t1'', 0), (''t2'', 1)] two_sessions"
    by (simp add: cleanupOldSessions_def Let_def ses env_stop_fails_def env_ok_def)
  also have "\<dots> = (Inl (Error ''stop failed''), issue (Stop ''c-t1'') two_sessions)"
    using old st by (simp add: cleanupLoop_Cons_stop)
  finally have run: "cleanupOldSessions two_sessions env_stop_fails 24 =
      (Inl (Error ''stop failed''), issue (Stop ''c-t1'') two_sessions)" .
  have rest: "Map_get (sessions (issue (Stop ''c-t1'') two_sessions)) ''t2'' = Some 1
   \<and> status (objs (issue (Stop ''c-t1'') two_sessions) ! 1) = Running
   \<and> Stop ''c-t2'' \<notin> set (calls (issue (Stop ''c-t1'') two_sessions))"
    by (simp add: two_sessions_eq Map_get_def newSession_def)
  from e run rest show ?thesis by blast
qed


section \<open>Failures of createSession\<close>

text \<open>
  Claim C2, as stated, fails on the code. The container is created and its start is
  rejected: the error is propagated, but the session stored before the start is still
  in the registry, and the calls issued are the three of the provisioning alone, with
  no stop and no remove of the container that was created.
\<close>

theorem createSession_start_failure_counterexample:
  "createSession init env_start_fails ''t1'' ''ch'' ''u'' =
     (Inl (Error ''start failed''),
      \<lparr>objs = [newSession ''t1'' ''c-t1'' ''ch'' ''u'' 1000], sessions = [(''t1'', 0)],
       calls = [Mkdir ''t1'', CreateContainer ''t1'', Start ''c-t1'']\<rparr>)
   \<and> Map_get (sessions (snd (createSession init env_start_fails ''t1'' ''ch'' ''u''))) ''t1'' = Some 0"
  by (simp add: createSession_def init_def env_start_fails_def env_ok_def storeSession_def
      issue_def Let_def newSession_def Map_get_def)

text \<open>
  Claim C2, amended. A rejected \<open>createSession\<close> propagates the error of the step that
  failed. When that step is the creation of the workspace or of the container, the
  registry and the session objects are as before the call, and no container exists.
  When it is the start, the calls issued are the three of the provisioning. In no case
  does the run issue a stop or a remove.
\<close>

theorem createSession_failure:
  assumes "createSession s e tid chan usr = (Inl err, s')"
  shows "(fs_mkdir e tid = Some err \<and> sessions s' = sessions s \<and> objs s' = objs s \<and>
            calls s' = calls s @ [Mkdir tid])
       \<or> (fs_mkdir e tid = None \<and> docker_createContainer e tid = Inl err \<and>
            sessions s' = sessions s \<and> objs s' = objs s \<and>
            calls s' = calls s @ [Mkdir tid, CreateContainer tid])
       \<or> (fs_mkdir e tid = None \<and>
            (\<exists>cid. docker_createContainer e tid = Inr cid \<and> container_start e cid = Some err \<and>
               calls s' = calls s @ [Mkdir tid, CreateContainer tid, Start cid]))"
proof (cases "fs_mkdir e tid")
  case (Some err')
  with assms show ?thesis
    by (auto simp: createSession_def Let_def)
next
  case None
  show ?thesis
  proof (cases "docker_createContainer e tid")
    case (Inl err')
    with None assms show ?thesis
      by (auto simp: createSession_def Let_def)
  next
    case (Inr cid)
    show ?thesis
    proof (cases "container_start e cid")
      case started: None
      with None Inr assms show ?thesis
        by (simp add: createSession_def Let_def)
    next
      case (Some err')
      with None Inr assms have "err' = err"
        and "s' = issue (Start cid)
               (storeSession (newSession tid cid chan usr (Date_now e))
                  (issue (CreateContainer tid) (issue (Mkdir tid) s)))"
        by (simp_all add: createSession_def Let_def)
      then have "container_start e cid = Some err"
        and "calls s' = calls s @ [Mkdir tid, CreateContainer tid, Start cid]"
        using Some by (simp_all add: storeSession_def)
      with None Inr show ?thesis by simp
    qed
  qed
qed

theorem createSession_failure_witness:
  "fst (createSession one_session env_create_fails ''t2'' ''ch'' ''u'') = Inl (Error ''no such image'')
   \<and> sessions (snd (createSession one_session env_create_fails ''t2'' ''ch'' ''u'')) = sessions one_session
   \<and> objs (snd (createSession one_session env_create_fails ''t2'' ''ch'' ''u'')) = objs one_session
   \<and> calls (snd (createSession one_session env_create_fails ''t2'' ''ch'' ''u'')) =
       calls one_session @ [Mkdir ''t2'', CreateContainer ''t2'']"
proof -
  let ?r = "createSession one_session env_create_fails ''t2'' ''ch'' ''u''"
  have f: "fst ?r = Inl (Error ''no such image'')"
    by (simp add: createSession_def Let_def env_create_fails_def env_ok_def)
  then have run: "?r = (Inl (Error ''no such image''), snd ?r)"
    by (simp add: prod_eq_iff)
  have mk: "fs_mkdir env_create_fails ''t2'' = None"
    and cr: "docker_createContainer env_create_fails ''t2'' = Inl (Error ''no such image'')"
    by (simp_all add: env_create_fails_def env_ok_def)
  from createSession_failure [OF run] mk cr
  have "sessions (snd ?r) = sessions one_session \<and> objs (snd ?r) = objs one_session \<and>
        calls (snd ?r) = calls one_session @ [Mkdir ''t2'', CreateContainer ''t2'']"
    by auto
  with f show ?thesis by simp
qed


section \<open>Transitions of the status\<close>

lemma stopSession_completes:
  assumes "registry_inv s" and "Map_get (sessions s) k = Some r"
    and "container_stop e (containerId (objs s ! r)) = None"
    and "container_remove e (containerId (objs s ! r)) = None"
  shows "fst (stopSession s e k) = Inr () \<and>
         status (objs (snd (stopSession s e k)) ! r) = Completed \<and>
         Map_get (sessions (snd (stopSession s e k))) k = None"
proof -
  from assms(2-4) have st: "stopSession s e k = (Inr (), stopped s k r)"
    by (rule stopSession_ok)
  from assms(2) have mem: "(k, r) \<in> set (sessions s)"
    by (rule Map_get_SomeD)
  with assms(1) have "r < length (objs s)"
    by (auto simp: registry_inv_def)
  then have c: "status (objs (stopped s k r) ! r) = Completed"
    by (simp add: stopped_obj_self)
  have "k \<notin> fst ` set (Map_delete (sessions s) k)"
    by (auto simp: Map_delete_set)
  then have "Map_get (sessions (stopped s k r)) k = None"
    by (simp add: Map_get_def map_of_eq_None_iff)
  with st c show ?thesis by simp
qed

lemma cleanupOldSessions_evicts:
  assumes "registry_inv s"
    and "\<forall>p \<in> set (sessions s). expired e h s (snd p) \<longrightarrow>
           container_stop e (containerId (objs s ! snd p)) = None \<and>
           container_remove e (containerId (objs s ! snd p)) = None"
    and "p \<in> set (sessions s)" and "expired e h s (snd p)"
  shows "status (objs (snd (cleanupOldSessions s e h)) ! snd p) = Completed \<and>
         Map_get (sessions (snd (cleanupOldSessions s e h))) (fst p) = None"
proof -
  let ?now = "Date_now e" and ?maxAge = "h * 60 * 60 * 1000"
  have ex: "\<And>r. expired e h s r = tooOld ?now ?maxAge s r"
    by (simp add: expired_def)
  have split: "sessions s = [] @ sessions s" by simp
  from assms(2) have ok: "\<forall>p \<in> set (sessions s). tooOld ?now ?maxAge s (snd p) \<longrightarrow>
           container_stop e (containerId (objs s ! snd p)) = None \<and>
           container_remove e (containerId (objs s ! snd p)) = None"
    by (simp add: ex)
  from cleanupLoop_ok [OF assms(1) split ok] obtain s' where
    loop: "cleanupLoop e ?now ?maxAge (sessions s) s = (Inr (), s')"
    and ses: "sessions s' = filter (\<lambda>p. \<not> expired e h s (snd p)) (sessions s)"
    and st: "\<forall>p \<in> set (sessions s). expired e h s (snd p) \<longrightarrow> status (objs s' ! snd p) = Completed"
    by (auto simp: ex)
  from loop have s': "snd (cleanupOldSessions s e h) = s'"
    by (simp add: cleanupOldSessions_def Let_def)
  from assms(1) have "distinct (map fst (sessions s))"
    by (simp add: registry_inv_def)
  from Map_get_filter_out [OF this assms(3), of "\<lambda>p. \<not> expired e h s (snd p)"] assms(4) ses
  have "Map_get (sessions s') (fst p) = None"
    by simp
  with st assms(3,4) s' show ?thesis by simp
qed

text \<open>
  Claim C10, as stated, fails on the code. Every exec is rejected, so
  \<open>executeClaudeCode\<close> answers with the error; the session of the thread is still
  stored, and its status is still \<open>Running\<close>, not \<open>Failed\<close>.
\<close>

theorem execution_error_counterexample:
  "fst (executeClaudeCode one_session env_exec_fails ''t1'' ''hello'') =
     \<lparr>success = False, output' = None, error = Some ''container not running'', artifacts = None\<rparr>
   \<and> Map_get (sessions (snd (executeClaudeCode one_session env_exec_fails ''t1'' ''hello''))) ''t1''
       = Some 0
   \<and> status (objs (snd (executeClaudeCode one_session env_exec_fails ''t1'' ''hello'')) ! 0) = Running"
proof -
  have get: "Map_get (sessions one_session) ''t1'' = Some 0"
    by (simp add: one_session_eq Map_get_def)
  have "fst (executeClaudeCode one_session env_exec_fails ''t1'' ''hello'') = caught (Error ''container not running'')"
    by (simp add: executeClaudeCode_def executeCommand_registered [OF get] env_exec_fails_def env_ok_def)
  then have a: "fst (executeClaudeCode one_session env_exec_fails ''t1'' ''hello'') =
     \<lparr>success = False, output' = None, error = Some ''container not running'', artifacts = None\<rparr>"
    by (simp add: caught_def)
  have b: "Map_get (sessions (snd (executeClaudeCode one_session env_exec_fails ''t1'' ''hello''))) ''t1''
       = Some 0"
    by (simp add: executeClaudeCode_state get)
  have c: "status (objs (snd (executeClaudeCode one_session env_exec_fails ''t1'' ''hello'')) ! 0) = Running"
    by (simp add: executeClaudeCode_state one_session_eq newSession_def)
  from a b c show ?thesis by blast
qed

text \<open>
  Claim C10, amended. No operation assigns the status \<open>Failed\<close>: in every reachable
  state each session object is running or completed, and \<open>executeClaudeCode\<close>, whatever
  its outcome, leaves the session objects and the registry as they were. A session
  becomes \<open>Completed\<close>, and leaves the registry, when it is stopped and both the stop
  and the remove of its container succeed, or when it is expired in a sweep in which the
  stop and the remove of every expired session's container succeed.
\<close>

theorem status_transitions:
  "never_failed (run ops)
   \<and> objs (snd (executeClaudeCode s e k msg)) = objs s
   \<and> sessions (snd (executeClaudeCode s e k msg)) = sessions s
   \<and> (registry_inv s \<and> Map_get (sessions s) k = Some r \<and>
        container_stop e (containerId (objs s ! r)) = None \<and>
        container_remove e (containerId (objs s ! r)) = None \<longrightarrow>
        fst (stopSession s e k) = Inr () \<and>
        status (objs (snd (stopSession s e k)) ! r) = Completed \<and>
        Map_get (sessions (snd (stopSession s e k))) k = None)
   \<and> (registry_inv s \<and>
        (\<forall>p \<in> set (sessions s). expired e h s (snd p) \<longrightarrow>
           container_stop e (containerId (objs s ! snd p)) = None \<and>
           container_remove e (containerId (objs s ! snd p)) = None) \<longrightarrow>
        (\<forall>p \<in> set (sessions s). expired e h s (snd p) \<longrightarrow>
           status (objs (snd (cleanupOldSessions s e h)) ! snd p) = Completed \<and>
           Map_get (sessions (snd (cleanupOldSessions s e h))) (fst p) = None))"
proof (intro conjI impI ballI)
  show "never_failed (run ops)"
    using run_inv [of ops] by simp
next
  show "objs (snd (executeClaudeCode s e k msg)) = objs s"
    by (rule executeClaudeCode_state)
next
  show "sessions (snd (executeClaudeCode s e k msg)) = sessions s"
    by (rule executeClaudeCode_state)
next
  assume a: "registry_inv s \<and> Map_get (sessions s) k = Some r \<and>
        container_stop e (containerId (objs s ! r)) = None \<and>
        container_remove e (containerId (objs s ! r)) = None"
  then show "fst (stopSession s e k) = Inr ()"
    and "status (objs (snd (stopSession s e k)) ! r) = Completed"
    and "Map_get (sessions (snd (stopSession s e k))) k = None"
    using stopSession_completes [of s k r e] by simp_all
next
  fix p
  assume a: "registry_inv s \<and>
        (\<forall>p \<in> set (sessions s). expired e h s (snd p) \<longrightarrow>
           container_stop e (containerId (objs s ! snd p)) = None \<and>
           container_remove e (containerId (objs s ! snd p)) = None)"
    and p: "p \<in> set (sessions s)" "expired e h s (snd p)"
  then show "status (objs (snd (cleanupOldSessions s e h)) ! snd p) = Completed"
    and "Map_get (sessions (snd (cleanupOldSessions s e h))) (fst p) = None"
    using cleanupOldSessions_evicts [of s e h p] by simp_all
qed

theorem status_transitions_witness:
  "registry_inv one_session \<and> Map_get (sessions one_session) ''t1'' = Some 0
   \<and> never_failed one_session
   \<and> fst (stopSession one_session env_ok ''t1'') = Inr ()
   \<and> status (objs (snd (stopSession one_session env_ok ''t1'')) ! 0) = Completed
   \<and> Map_get (sessions (snd (stopSession one_session env_ok ''t1''))) ''t1'' = None
   \<and> expired env_later 1 two_sessions 0
   \<and> status (objs (snd (cleanupOldSessions two_sessions env_later 1)) ! 0) = Completed
   \<and> Map_get (sessions (snd (cleanupOldSessions two_sessions env_later 1))) ''t1'' = None"
proof -
  have inv1: "registry_inv one_session"
    using run_inv unfolding one_session_def by blast
  have get: "Map_get (sessions one_session) ''t1'' = Some 0"
    by (simp add: one_session_eq Map_get_def)
  have ok1: "container_stop env_ok (containerId (objs one_session ! 0)) = None \<and>
      container_remove env_ok (containerId (objs one_session ! 0)) = None"
    by (simp add: env_ok_def)
  note th1 = status_transitions
    [of "[CreateSession env_ok ''t1'' ''ch'' ''u'']" one_session env_ok "''t1''" "''hello''" 0 1,
     folded one_session_def]
  from th1 inv1 get ok1 have nf: "never_failed one_session"
    and stop: "fst (stopSession one_session env_ok ''t1'') = Inr () \<and>
      status (objs (snd (stopSession one_session env_ok ''t1'')) ! 0) = Completed \<and>
      Map_get (sessions (snd (stopSession one_session env_ok ''t1''))) ''t1'' = None"
    by blast+
  have inv2: "registry_inv two_sessions"
    using run_inv unfolding two_sessions_def by blast
  have ses: "sessions two_sessions = [(''t1'', 0), (''t2'', 1)]"
    by (simp add: two_sessions_eq)
  have e0: "expired env_later 1 two_sessions 0"
    by (simp add: expired_def tooOld_def env_later_def env_ok_def two_sessions_eq newSession_def)
  have ok2: "\<forall>p \<in> set (sessions two_sessions). expired env_later 1 two_sessions (snd p) \<longrightarrow>
      container_stop env_later (containerId (objs two_sessions ! snd p)) = None \<and>
      container_remove env_later (containerId (objs two_sessions ! snd p)) = None"
    by (simp add: env_later_def env_ok_def)
  note th2 = status_transitions [of "[]" two_sessions env_later "''t1''" "''hello''" 0 1]
  from th2 inv2 ok2 have "\<forall>p \<in> set (sessions two_sessions). expired env_later 1 two_sessions (snd p) \<longrightarrow>
      status (objs (snd (cleanupOldSessions two_sessions env_later 1)) ! snd p) = Completed \<and>
      Map_get (sessions (snd (cleanupOldSessions two_sessions env_later 1))) (fst p) = None"
    by blast
  with ses e0 have ev: "status (objs (snd (cleanupOldSessions two_sessions env_later 1)) ! 0) = Completed \<and>
      Map_get (sessions (snd (cleanupOldSessions two_sessions env_later 1))) ''t1'' = None"
    by simp
  from inv1 get nf stop e0 ev show ?thesis by blast
qed


section \<open>The response of executeClaudeCode\<close>

lemma executeClaudeCode_execs:
  assumes "Map_get (sessions s) sessionId = Some r"
    and "container_exec e (containerId (objs s ! r))
           (seedCommand userMessage (messageFile (Date_now e))) = Inr seeded"
    and "container_exec e (containerId (objs s ! r)) (toolCommand userMessage) = Inr (stdout, stderr)"
  shows "executeClaudeCode s e sessionId userMessage =
     (case getWorkspaceFiles e sessionId of
        Inl err \<Rightarrow> caught err
      | Inr files \<Rightarrow>
          \<lparr>success = (stderr = []), output' = Some stdout,
           error = (if stderr = [] then None else Some stderr),
           artifacts = Some (toArtifacts files)\<rparr>,
      issue (Exec (containerId (objs s ! r)) (toolCommand userMessage))
        (issue (Exec (containerId (objs s ! r))
                  (seedCommand userMessage (messageFile (Date_now e)))) s))"
proof -
  let ?cid = "containerId (objs s ! r)"
  let ?s1 = "issue (Exec ?cid (seedCommand userMessage (messageFile (Date_now e)))) s"
  from assms(1,2) have c1: "executeCommand s e sessionId
      (seedCommand userMessage (messageFile (Date_now e))) = (Inr seeded, ?s1)"
    by (simp add: executeCommand_registered)
  from assms(1) have "Map_get (sessions ?s1) sessionId = Some r" by simp
  from executeCommand_registered [OF this, of e "toolCommand userMessage"] assms(3)
  have c2: "executeCommand ?s1 e sessionId (toolCommand userMessage) =
      (Inr (stdout, stderr), issue (Exec ?cid (toolCommand userMessage)) ?s1)"
    by simp
  show ?thesis
    by (simp add: executeClaudeCode_def c1 c2 split: sum.split)
qed

text \<open>
  Claim C3, as stated, fails on the code. The exec returns \<open>done\<close> with an empty
  \<open>stderr\<close> and the read of the workspace that follows is rejected: the response has
  \<open>success = False\<close> and no \<open>output\<close>. The exec returns a non-empty \<open>stderr\<close>
  and the read is rejected: \<open>error\<close> is the message of the read error, not \<open>stderr\<close>.
\<close>

theorem stderr_rule_counterexample:
  "container_exec env_read_fails ''c-t1'' (toolCommand ''hello'') = Inr (''done'', [])
   \<and> \<not> success (fst (executeClaudeCode one_session env_read_fails ''t1'' ''hello''))
   \<and> output' (fst (executeClaudeCode one_session env_read_fails ''t1'' ''hello'')) = None
   \<and> container_exec env_stderr_read_fails ''c-t1'' (toolCommand ''hello'')
       = Inr (''partial'', ''warning'')
   \<and> error (fst (executeClaudeCode one_session env_stderr_read_fails ''t1'' ''hello''))
       = Some ''EACCES''"
proof -
  have get: "Map_get (sessions one_session) ''t1'' = Some 0"
    by (simp add: one_session_eq Map_get_def)
  have cid: "containerId (objs one_session ! 0) = ''c-t1''"
    by (simp add: one_session_eq newSession_def)
  have ex1: "container_exec env_read_fails (containerId (objs one_session ! 0))
        (seedCommand ''hello'' (messageFile (Date_now env_read_fails))) = Inr (''done'', [])"
    "container_exec env_read_fails (containerId (objs one_session ! 0)) (toolCommand ''hello'')
       = Inr (''done'', [])"
    by (simp_all add: env_read_fails_def env_ok_def)
  have rd1: "getWorkspaceFiles env_read_fails ''t1'' = Inl (Error ''EACCES'')"
    by (simp add: env_read_fails_def env_ok_def getWorkspaceFiles_def)
  have ex2: "container_exec env_stderr_read_fails (containerId (objs one_session ! 0))
        (seedCommand ''hello'' (messageFile (Date_now env_stderr_read_fails)))
       = Inr (''partial'', ''warning'')"
    "container_exec env_stderr_read_fails (containerId (objs one_session ! 0)) (toolCommand ''hello'')
       = Inr (''partial'', ''warning'')"
    by (simp_all add: env_stderr_read_fails_def env_stderr_def env_ok_def)
  have rd2: "getWorkspaceFiles env_stderr_read_fails ''t1'' = Inl (Error ''EACCES'')"
    by (simp add: env_stderr_read_fails_def env_stderr_def env_ok_def getWorkspaceFiles_def)
  have a: "fst (executeClaudeCode one_session env_read_fails ''t1'' ''hello'') = caught (Error ''EACCES'')"
    by (simp add: executeClaudeCode_execs [OF get ex1] rd1)
  have b: "fst (executeClaudeCode one_session env_stderr_read_fails ''t1'' ''hello'')
      = caught (Error ''EACCES'')"
    by (simp add: executeClaudeCode_execs [OF get ex2] rd2)
  from a b ex1(2) ex2(2) cid show ?thesis
    by (simp add: caught_def)
qed

text \<open>
  Claim C3, amended. The result of the exec carries the two streams only, no exit
  code. When the session is registered, both execs resolve and the read of the
  workspace that follows succeeds, the response has \<open>success = True\<close>,
  \<open>output = stdout\<close> and no \<open>error\<close> if \<open>stderr\<close> is empty, and
  \<open>success = False\<close>, \<open>output = stdout\<close> and \<open>error = stderr\<close> if it is not.
\<close>

theorem executeClaudeCode_success_iff_stderr_empty:
  assumes "Map_get (sessions s) sessionId = Some r"
    and "container_exec e (containerId (objs s ! r))
           (seedCommand userMessage (messageFile (Date_now e))) = Inr seeded"
    and "container_exec e (containerId (objs s ! r)) (toolCommand userMessage) = Inr (stdout, stderr)"
    and "getWorkspaceFiles e sessionId = Inr files"
  shows "(stderr = [] \<longrightarrow>
            success (fst (executeClaudeCode s e sessionId userMessage)) \<and>
            output' (fst (executeClaudeCode s e sessionId userMessage)) = Some stdout \<and>
            error (fst (executeClaudeCode s e sessionId userMessage)) = None)
       \<and> (stderr \<noteq> [] \<longrightarrow>
            \<not> success (fst (executeClaudeCode s e sessionId userMessage)) \<and>
            output' (fst (executeClaudeCode s e sessionId userMessage)) = Some stdout \<and>
            error (fst (executeClaudeCode s e sessionId userMessage)) = Some stderr)
       \<and> artifacts (fst (executeClaudeCode s e sessionId userMessage)) = Some (toArtifacts files)"
  by (simp add: executeClaudeCode_execs [OF assms(1-3)] assms(4))

theorem executeClaudeCode_success_iff_stderr_empty_witness:
  "success (fst (executeClaudeCode one_session env_ok ''t1'' ''hello''))
   \<and> output' (fst (executeClaudeCode one_session env_ok ''t1'' ''hello'')) = Some ''done''
   \<and> error (fst (executeClaudeCode one_session env_ok ''t1'' ''hello'')) = None
   \<and> \<not> success (fst (executeClaudeCode one_session env_stderr ''t1'' ''hello''))
   \<and> output' (fst (executeClaudeCode one_session env_stderr ''t1'' ''hello'')) = Some ''partial''
   \<and> error (fst (executeClaudeCode one_session env_stderr ''t1'' ''hello'')) = Some ''warning''"
proof -
  have get: "Map_get (sessions one_session) ''t1'' = Some 0"
    by (simp add: one_session_eq Map_get_def)
  have ok: "container_exec env_ok (containerId (objs one_session ! 0))
        (seedCommand ''hello'' (messageFile (Date_now env_ok))) = Inr (''done'', [])"
    "container_exec env_ok (containerId (objs one_session ! 0)) (toolCommand ''hello'') = Inr (''done'', [])"
    "getWorkspaceFiles env_ok ''t1'' = Inr []"
    by (simp_all add: env_ok_def getWorkspaceFiles_def)
  have err: "container_exec env_stderr (containerId (objs one_session ! 0))
        (seedCommand ''hello'' (messageFile (Date_now env_stderr))) = Inr (''partial'', ''warning'')"
    "container_exec env_stderr (containerId (objs one_session ! 0)) (toolCommand ''hello'')
       = Inr (''partial'', ''warning'')"
    "getWorkspaceFiles env_stderr ''t1'' = Inr []"
    by (simp_all add: env_stderr_def env_ok_def getWorkspaceFiles_def)
  from executeClaudeCode_success_iff_stderr_empty [OF get ok]
    executeClaudeCode_success_iff_stderr_empty [OF get err]
  show ?thesis by simp
qed

section \<open>A workspace that cannot be read\<close>

text \<open>
  Claim C4, as stated, fails on the code. The tool ran and wrote \<open>done\<close> to its
  standard output, then the workspace cannot be listed: the response carries the
  message of the read error and neither the output of the tool nor artifacts.
\<close>

theorem workspace_read_failure_counterexample:
  "container_exec env_read_fails ''c-t1'' (toolCommand ''hello'') = Inr (''done'', [])
   \<and> getWorkspaceFiles env_read_fails ''t1'' = Inl (Error ''EACCES'')
   \<and> fst (executeClaudeCode one_session env_read_fails ''t1'' ''hello'') =
       \<lparr>success = False, output' = None, error = Some ''EACCES'', artifacts = None\<rparr>"
proof -
  have get: "Map_get (sessions one_session) ''t1'' = Some 0"
    by (simp add: one_session_eq Map_get_def)
  have cid: "containerId (objs one_session ! 0) = ''c-t1''"
    by (simp add: one_session_eq newSession_def)
  have ex: "container_exec env_read_fails (containerId (objs one_session ! 0))
        (seedCommand ''hello'' (messageFile (Date_now env_read_fails))) = Inr (''done'', [])"
    "container_exec env_read_fails (containerId (objs one_session ! 0)) (toolCommand ''hello'')
       = Inr (''done'', [])"
    by (simp_all add: env_read_fails_def env_ok_def)
  have rd: "getWorkspaceFiles env_read_fails ''t1'' = Inl (Error ''EACCES'')"
    by (simp add: env_read_fails_def env_ok_def getWorkspaceFiles_def)
  from executeClaudeCode_execs [OF get ex] rd
  have "fst (executeClaudeCode one_session env_read_fails ''t1'' ''hello'') =
       \<lparr>success = False, output' = None, error = Some ''EACCES'', artifacts = None\<rparr>"
    by (simp add: caught_def)
  with ex(2) rd cid show ?thesis by simp
qed

text \<open>
  Claim C4, amended. When both execs resolved and the read of the workspace fails
  with \<open>err\<close>, the response is the one of the \<open>catch\<close> block: \<open>success = False\<close>,
  \<open>error\<close> the message of \<open>err\<close>, and neither \<open>output\<close> nor \<open>artifacts\<close>; the
  streams of the exec are not in it. The absent \<open>artifacts\<close> differ from the empty list
  that the read of an empty workspace gives. In both cases the state is the one after
  the two execs: nothing undoes them.
\<close>

theorem executeClaudeCode_read_failure:
  assumes "Map_get (sessions s) sessionId = Some r"
    and "container_exec e (containerId (objs s ! r))
           (seedCommand userMessage (messageFile (Date_now e))) = Inr seeded"
    and "container_exec e (containerId (objs s ! r)) (toolCommand userMessage) = Inr (stdout, stderr)"
  shows "(getWorkspaceFiles e sessionId = Inl err \<longrightarrow>
            \<not> success (fst (executeClaudeCode s e sessionId userMessage)) \<and>
            output' (fst (executeClaudeCode s e sessionId userMessage)) = None \<and>
            error (fst (executeClaudeCode s e sessionId userMessage)) =
              Some (case err of Error m \<Rightarrow> m | NonError \<Rightarrow> ''Unknown error'') \<and>
            artifacts (fst (executeClaudeCode s e sessionId userMessage)) = None)
       \<and> (getWorkspaceFiles e sessionId = Inr [] \<longrightarrow>
            artifacts (fst (executeClaudeCode s e sessionId userMessage)) = Some [])
       \<and> snd (executeClaudeCode s e sessionId userMessage) =
           s\<lparr>calls := calls s @
                [Exec (containerId (objs s ! r)) (seedCommand userMessage (messageFile (Date_now e))),
                 Exec (containerId (objs s ! r)) (toolCommand userMessage)]\<rparr>"
  by (simp add: executeClaudeCode_execs [OF assms] caught_def toArtifacts_def issue_def)

theorem executeClaudeCode_read_failure_witness:
  "getWorkspaceFiles env_read_fails ''t1'' = Inl (Error ''EACCES'')
   \<and> artifacts (fst (executeClaudeCode one_session env_read_fails ''t1'' ''hello'')) = None
   \<and> output' (fst (executeClaudeCode one_session env_read_fails ''t1'' ''hello'')) = None
   \<and> error (fst (executeClaudeCode one_session env_read_fails ''t1'' ''hello'')) = Some ''EACCES''
   \<and> getWorkspaceFiles env_ok ''t1'' = Inr []
   \<and> artifacts (fst (executeClaudeCode one_session env_ok ''t1'' ''hello'')) = Some []"
proof -
  have get: "Map_get (sessions one_session) ''t1'' = Some 0"
    by (simp add: one_session_eq Map_get_def)
  have ex: "container_exec env_read_fails (containerId (objs one_session ! 0))
        (seedCommand ''hello'' (messageFile (Date_now env_read_fails))) = Inr (''done'', [])"
    "container_exec env_read_fails (containerId (objs one_session ! 0)) (toolCommand ''hello'')
       = Inr (''done'', [])"
    by (simp_all add: env_read_fails_def env_ok_def)
  have rd: "getWorkspaceFiles env_read_fails ''t1'' = Inl (Error ''EACCES'')"
    by (simp add: env_read_fails_def env_ok_def getWorkspaceFiles_def)
  have ok: "container_exec env_ok (containerId (objs one_session ! 0))
        (seedCommand ''hello'' (messageFile (Date_now env_ok))) = Inr (''done'', [])"
    "container_exec env_ok (containerId (objs one_session ! 0)) (toolCommand ''hello'') = Inr (''done'', [])"
    by (simp_all add: env_ok_def)
  have rd_ok: "getWorkspaceFiles env_ok ''t1'' = Inr []"
    by (simp add: env_ok_def getWorkspaceFiles_def)
  from executeClaudeCode_read_failure [OF get ex, of "Error ''EACCES''"] rd
    executeClaudeCode_read_failure [OF get ok, of NonError] rd_ok
  show ?thesis by simp
qed


section \<open>Seeding the message file\<close>

lemma replaceQuotes_no_quote: "CHR 0x22 \<notin> set userMessage \<Longrightarrow> replaceQuotes userMessage = userMessage"
  by (induction userMessage) (auto simp: replaceQuotes_def)


text \<open>
  Claim C9, on the code. For the message \<open>$HOME\<close> the command handed to \<open>sh -c\<close>
  is \<open>echo "$HOME" > /workspace/user_message_1000.txt\<close>: the dollar sign reaches the
  shell unescaped inside double quotes. Only the double quote is escaped; a backquote,
  a dollar sign and a backslash are passed on as they are, and a backslash before a
  double quote even takes the escape away again (the text \<open>\"\<close> becomes \<open>\\"\<close>).
\<close>

theorem seedCommand_leaves_metacharacters:
  "seedCommand ''$HOME'' (messageFile 1000) =
     [''sh'', ''-c'',
      ''echo '' @ [CHR 0x22] @ ''$HOME'' @ [CHR 0x22] @ '' > /workspace/user_message_1000.txt'']
   \<and> replaceQuotes ''`id` $HOME'' = ''`id` $HOME''
   \<and> replaceQuotes [CHR 0x5C] = [CHR 0x5C]
   \<and> replaceQuotes [CHR 0x5C, CHR 0x22] = [CHR 0x5C, CHR 0x5C, CHR 0x22]
   \<and> calls (snd (executeClaudeCode one_session env_ok ''t1'' ''$HOME'')) =
       calls one_session @
         [Exec ''c-t1'' (seedCommand ''$HOME'' (messageFile 1000)),
          Exec ''c-t1'' (toolCommand ''$HOME'')]"
proof -
  have fname: "messageFile 1000 = ''/workspace/user_message_1000.txt''"
    by code_simp
  have a: "seedCommand ''$HOME'' (messageFile 1000) =
     [''sh'', ''-c'',
      ''echo '' @ [CHR 0x22] @ ''$HOME'' @ [CHR 0x22] @ '' > /workspace/user_message_1000.txt'']"
    by (simp add: seedCommand_def fname replaceQuotes_def)
  have b: "replaceQuotes ''`id` $HOME'' = ''`id` $HOME''"
    and c: "replaceQuotes [CHR 0x5C] = [CHR 0x5C]"
    and d: "replaceQuotes [CHR 0x5C, CHR 0x22] = [CHR 0x5C, CHR 0x5C, CHR 0x22]"
    by (simp_all add: replaceQuotes_def)
  have get: "Map_get (sessions one_session) ''t1'' = Some 0"
    by (simp add: one_session_eq Map_get_def)
  have cid: "containerId (objs one_session ! 0) = ''c-t1''"
    by (simp add: one_session_eq newSession_def)
  have now: "Date_now env_ok = 1000"
    by (simp add: env_ok_def)
  have ex: "container_exec env_ok (containerId (objs one_session ! 0))
        (seedCommand ''$HOME'' (messageFile (Date_now env_ok))) = Inr (''done'', [])"
    "container_exec env_ok (containerId (objs one_session ! 0)) (toolCommand ''$HOME'') = Inr (''done'', [])"
    by (simp_all add: env_ok_def)
  have e: "calls (snd (executeClaudeCode one_session env_ok ''t1'' ''$HOME'')) =
       calls one_session @
         [Exec ''c-t1'' (seedCommand ''$HOME'' (messageFile 1000)),
          Exec ''c-t1'' (toolCommand ''$HOME'')]"
    by (simp add: executeClaudeCode_execs [OF get ex] cid now)
  from a b c d e show ?thesis by blast
qed


section \<open>Overlapping and consecutive calls\<close>

lemma step_task_0:
  "step_task (t # ts) \<lparr>shared = s, phases = ph # phs\<rparr> (0, e) =
     \<lparr>shared = snd (step e t ph s), phases = fst (step e t ph s) # phs\<rparr>"
  by (simp add: step_task_def split: prod.split)

lemma step_task_1:
  "step_task [t0, t1] \<lparr>shared = s, phases = [ph0, ph1]\<rparr> (Suc 0, e) =
     \<lparr>shared = snd (step e t1 ph1 s), phases = [ph0, fst (step e t1 ph1 s)]\<rparr>"
  by (simp add: step_task_def split: prod.split)

lemma race_prefix:
  "run_schedule two_callers
     [(0, env_ok), (1, env_ok), (0, env_ok), (0, env_ok), (0, env_ok), (0, env_ok), (0, env_ok),
      (1, env_ok), (1, env_ok)]
     (start init two_callers) =
   \<lparr>shared =
      \<lparr>objs = [newSession ''t1'' ''c-t1'' ''ch'' ''alice'' 1000], sessions = [(''t1'', 0)],
       calls = [Mkdir ''t1'', CreateContainer ''t1'', Start ''c-t1'', Mkdir ''t1'',
                CreateContainer ''t1'']\<rparr>,
    phases = [Attached 0, AwaitCreateContainer]\<rparr>"
  by (simp add: run_schedule_def start_def two_callers_def step_task_0 step_task_1
      getSessionByThread_def init_def env_ok_def issue_def storeSession_def newSession_def)

lemma race_split:
  "run_schedule two_callers (race e) (start init two_callers) =
   run_schedule two_callers [(1, e), (1, e), (1, e)]
     \<lparr>shared =
        \<lparr>objs = [newSession ''t1'' ''c-t1'' ''ch'' ''alice'' 1000], sessions = [(''t1'', 0)],
         calls = [Mkdir ''t1'', CreateContainer ''t1'', Start ''c-t1'', Mkdir ''t1'',
                  CreateContainer ''t1'']\<rparr>,
      phases = [Attached 0, AwaitCreateContainer]\<rparr>"
proof -
  have "race e =
     [(0, env_ok), (1, env_ok), (0, env_ok), (0, env_ok), (0, env_ok), (0, env_ok), (0, env_ok),
      (1, env_ok), (1, env_ok)] @ [(1, e), (1, e), (1, e)]"
    by (simp add: race_def)
  then show ?thesis
    by (simp only: run_schedule_def foldl_append race_prefix [unfolded run_schedule_def])
qed

lemma race_conflict:
  "run_schedule two_callers (race env_conflict) (start init two_callers) =
   \<lparr>shared =
      \<lparr>objs = [newSession ''t1'' ''c-t1'' ''ch'' ''alice'' 1000], sessions = [(''t1'', 0)],
       calls = [Mkdir ''t1'', CreateContainer ''t1'', Start ''c-t1'', Mkdir ''t1'',
                CreateContainer ''t1'']\<rparr>,
    phases = [Attached 0, Rejected (Error ''Conflict: name in use'')]\<rparr>"
  by (subst race_split)
    (simp add: run_schedule_def two_callers_def step_task_1 env_conflict_def env_ok_def)

lemma race_second:
  "run_schedule two_callers (race env_second) (start init two_callers) =
   \<lparr>shared =
      \<lparr>objs = [newSession ''t1'' ''c-t1'' ''ch'' ''alice'' 1000,
               newSession ''t1'' ''c2-t1'' ''ch'' ''bob'' 1000],
       sessions = [(''t1'', 1)],
       calls = [Mkdir ''t1'', CreateContainer ''t1'', Start ''c-t1'', Mkdir ''t1'',
                CreateContainer ''t1'', Start ''c2-t1'']\<rparr>,
    phases = [Attached 0, Attached 1]\<rparr>"
  by (subst race_split)
    (simp add: run_schedule_def two_callers_def step_task_1 env_second_def env_ok_def
      issue_def storeSession_def newSession_def)

text \<open>
  Claim C1, as stated, fails on the code. No session exists for \<open>t1\<close> and two calls
  overlap: both find no session before either has stored one, so \<open>createSession\<close> is
  entered twice and Docker is asked twice to create a container. Where Docker refuses
  the second container for its name, the second caller gets the error and no container
  id; where Docker accepts it, two containers exist, the second session has replaced the
  first in the registry, and the callers hold different container ids.
\<close>

theorem overlapping_calls_counterexample:
  "getSessionByThread init ''t1'' = None
   \<and> createSession_invocations ''t1''
        (shared (run_schedule two_callers (race env_conflict) (start init two_callers))) = 2
   \<and> container_creations ''t1''
        (shared (run_schedule two_callers (race env_conflict) (start init two_callers))) = 2
   \<and> observed (run_schedule two_callers (race env_conflict) (start init two_callers)) 0
        = Some ''c-t1''
   \<and> observed (run_schedule two_callers (race env_conflict) (start init two_callers)) 1 = None
   \<and> createSession_invocations ''t1''
        (shared (run_schedule two_callers (race env_second) (start init two_callers))) = 2
   \<and> observed (run_schedule two_callers (race env_second) (start init two_callers)) 0
        = Some ''c-t1''
   \<and> observed (run_schedule two_callers (race env_second) (start init two_callers)) 1
        = Some ''c2-t1''"
proof -
  have "getSessionByThread init ''t1'' = None"
    by (simp add: getSessionByThread_def init_def)
  then show ?thesis
    by (simp add: race_conflict race_second createSession_invocations_def container_creations_def
        observed_def newSession_def)
qed

lemma alone_is_createOrAttach:
  "run_schedule [t] (alone e) (start s [t]) =
     (case createOrAttach s e (t_channelId t) (t_threadId t) (t_userId t) of
        (Inl err, s') \<Rightarrow> \<lparr>shared = s', phases = [Rejected err]\<rparr>
      | (Inr r, s') \<Rightarrow> \<lparr>shared = s', phases = [Attached r]\<rparr>)"
proof (cases "getSessionByThread s (t_threadId t)")
  case (Some r)
  then show ?thesis
    by (simp add: run_schedule_def alone_def start_def step_task_0 createOrAttach_def)
next
  case None
  show ?thesis
  proof (cases "fs_mkdir e (t_threadId t)")
    case (Some err)
    with None show ?thesis
      by (simp add: run_schedule_def alone_def start_def step_task_0 createOrAttach_def
          createSession_def Let_def)
  next
    case mk: None
    show ?thesis
    proof (cases "docker_createContainer e (t_threadId t)")
      case (Inl err)
      with None mk show ?thesis
        by (simp add: run_schedule_def alone_def start_def step_task_0 createOrAttach_def
            createSession_def Let_def)
    next
      case (Inr cid)
      have cid: "containerId
          (objs (issue (Start cid)
                   (storeSession
                      (newSession (t_threadId t) cid (t_channelId t) (t_userId t) (Date_now e))
                      (issue (CreateContainer (t_threadId t)) (issue (Mkdir (t_threadId t)) s)))) !
           length (objs s)) = cid"
        by (simp add: storeSession_def newSession_def)
      from None mk Inr cid show ?thesis
        by (simp add: run_schedule_def alone_def start_def step_task_0 createOrAttach_def
            createSession_def Let_def split: option.split)
    qed
  qed
qed

lemma find_last:
  "\<forall>y \<in> set xs. \<not> P y \<Longrightarrow> P x \<Longrightarrow> find P (xs @ [x]) = Some x"
  by (induction xs) simp_all

lemma find_None_all: "find P xs = None \<Longrightarrow> \<forall>y \<in> set xs. \<not> P y"
  by (simp add: find_None_iff)

lemma getSessionByThread_storeSession:
  assumes "registry_inv s" and "getSessionByThread s tid = None"
    and "id' session = tid" and "threadId session = tid"
  shows "getSessionByThread (storeSession session s) tid = Some (length (objs s))"
proof -
  from assms(2) have none: "\<forall>r \<in> set (map snd (sessions s)). threadId (objs s ! r) \<noteq> tid"
    unfolding getSessionByThread_def by (rule find_None_all)
  have fresh: "tid \<notin> fst ` set (sessions s)"
  proof
    assume "tid \<in> fst ` set (sessions s)"
    then obtain r where mem: "(tid, r) \<in> set (sessions s)" by auto
    with assms(1) have "threadId (objs s ! r) = tid"
      by (auto simp: registry_inv_def)
    moreover from mem have "r \<in> set (map snd (sessions s))"
      by (auto simp: rev_image_eqI)
    ultimately show False using none by blast
  qed
  have old: "\<forall>r \<in> set (map snd (sessions s)).
      \<not> threadId ((objs s @ [session]) ! r) = tid"
  proof
    fix r
    assume r: "r \<in> set (map snd (sessions s))"
    then obtain k where "(k, r) \<in> set (sessions s)" by auto
    with assms(1) have "r < length (objs s)"
      by (auto simp: registry_inv_def)
    moreover from none r have "threadId (objs s ! r) \<noteq> tid"
      by blast
    ultimately show "\<not> threadId ((objs s @ [session]) ! r) = tid"
      by (simp add: nth_append)
  qed
  have new: "threadId ((objs s @ [session]) ! length (objs s)) = tid"
    using assms(4) by simp
  from find_last [of "map snd (sessions s)" "\<lambda>r. threadId ((objs s @ [session]) ! r) = tid",
      OF old new]
  show ?thesis
    by (simp add: getSessionByThread_def storeSession_def assms(3) Map_set_fresh [OF fresh])
qed

lemma getSessionByThread_issue [simp]: "getSessionByThread (issue c s) tid = getSessionByThread s tid"
  by (simp add: getSessionByThread_def)

lemma createOrAttach_seq_attached:
  "getSessionByThread s tid = Some r \<Longrightarrow>
   createOrAttach_seq s es chan tid usr = (replicate (length es) (Inr r), s)"
  by (induction es) (simp_all add: createOrAttach_def)

text \<open>
  Claim C1, amended. The calls do not overlap: each runs lines 36-51 to their end
  before the next begins (\<open>alone_is_createOrAttach\<close>: that is a task stepping with no
  other task in between). If no session of the thread is stored and the provisioning
  of the first call succeeds, then however many calls follow, in whatever worlds,
  \<open>createSession\<close> is entered once and Docker is asked once to create a container,
  one session is added to the store and registered under the thread, and every caller
  obtains that same session, whose container id is the one Docker returned.
\<close>

theorem consecutive_calls_create_once:
  assumes "registry_inv s" and "getSessionByThread s tid = None"
    and "fs_mkdir e tid = None" and "docker_createContainer e tid = Inr cid"
    and "container_start e cid = None" and "mattermost_sendMessage e = None"
    and "createOrAttach_seq s (e # es) chan tid usr = (results, s')"
  shows "results = replicate (Suc (length es)) (Inr (length (objs s)))
       \<and> containerId (objs s' ! length (objs s)) = cid
       \<and> createSession_invocations tid s' = Suc (createSession_invocations tid s)
       \<and> container_creations tid s' = Suc (container_creations tid s)
       \<and> length (objs s') = Suc (length (objs s))
       \<and> getSessionByThread s' tid = Some (length (objs s))"
proof -
  let ?session = "newSession tid cid chan usr (Date_now e)"
  let ?s2 = "issue (CreateContainer tid) (issue (Mkdir tid) s)"
  let ?s3 = "issue (Start cid) (storeSession ?session ?s2)"
  from assms(3-5) have cs: "createSession s e tid chan usr = (Inr (length (objs s)), ?s3)"
    by (simp add: createSession_def Let_def)
  with assms(2,6) have first: "createOrAttach s e chan tid usr = (Inr (length (objs s)), ?s3)"
    by (simp add: createOrAttach_def)
  from assms(1) have "registry_inv ?s2" by simp
  moreover from assms(2) have "getSessionByThread ?s2 tid = None" by simp
  ultimately have "getSessionByThread (storeSession ?session ?s2) tid = Some (length (objs ?s2))"
    by (rule getSessionByThread_storeSession) (simp_all add: newSession_def)
  then have found: "getSessionByThread ?s3 tid = Some (length (objs s))"
    by simp
  from createOrAttach_seq_attached [OF found, of es chan usr] first assms(7)
  have res: "results = replicate (Suc (length es)) (Inr (length (objs s)))" and s': "s' = ?s3"
    by simp_all
  have "containerId (objs ?s3 ! length (objs s)) = cid"
    and "createSession_invocations tid ?s3 = Suc (createSession_invocations tid s)"
    and "container_creations tid ?s3 = Suc (container_creations tid s)"
    and "length (objs ?s3) = Suc (length (objs s))"
    by (simp_all add: storeSession_def newSession_def createSession_invocations_def
        container_creations_def)
  with res s' found show ?thesis by simp
qed

theorem consecutive_calls_create_once_witness:
  "registry_inv init \<and> getSessionByThread init ''t1'' = None
   \<and> fst (createOrAttach_seq init [env_ok, env_conflict, env_start_fails] ''ch'' ''t1'' ''u'')
       = [Inr 0, Inr 0, Inr 0]
   \<and> containerId
        (objs (snd (createOrAttach_seq init [env_ok, env_conflict, env_start_fails] ''ch'' ''t1'' ''u'')) ! 0)
       = ''c-t1''
   \<and> container_creations ''t1''
        (snd (createOrAttach_seq init [env_ok, env_conflict, env_start_fails] ''ch'' ''t1'' ''u'')) = 1"
proof -
  let ?run = "createOrAttach_seq init [env_ok, env_conflict, env_start_fails] ''ch'' ''t1'' ''u''"
  have none: "getSessionByThread init ''t1'' = None"
    by (simp add: getSessionByThread_def init_def)
  have w: "fs_mkdir env_ok ''t1'' = None" "docker_createContainer env_ok ''t1'' = Inr ''c-t1''"
    "container_start env_ok ''c-t1'' = None" "mattermost_sendMessage env_ok = None"
    by (simp_all add: env_ok_def)
  have run: "?run = (fst ?run, snd ?run)" by simp
  have zero: "length (objs init) = 0" "container_creations ''t1'' init = 0"
    by (simp_all add: init_def container_creations_def)
  from consecutive_calls_create_once [OF registry_inv_init none w run] zero
  have "fst ?run = [Inr 0, Inr 0, Inr 0]"
    and "containerId (objs (snd ?run) ! 0) = ''c-t1''"
    and "container_creations ''t1'' (snd ?run) = 1"
    by simp_all
  with registry_inv_init none show ?thesis by simp
qed

end
